theory Spec2Isabelle
  imports Main
begin

section \<open>C strings and characters\<close>

text \<open>
  A \<open>const char *\<close> that points to a string is modelled by the list of the bytes that
  precede its terminator; the terminator itself is implicit. \<open>c_at s i\<close> is the
  read \<open>s[i]\<close>: a byte of the list, or the null terminator at the end of it. The
  functions of the source never read behind the first null byte they meet.
\<close>

definition NUL :: char where
  "NUL = CHR 0x00"

definition c_at :: "string \<Rightarrow> nat \<Rightarrow> char" where
  "c_at s i = (if i < length s then s ! i else NUL)"

text \<open>\<open>#define _ENUM_NAME_ENDERS "= \t\n"\<close>\<close>

definition ENUM_NAME_ENDERS :: string where
  "ENUM_NAME_ENDERS = [CHR ''='', CHR '' '', CHR 0x09, CHR 0x0A]"

text \<open>
  \<open>_endsName(c, index)\<close>: walks \<open>_ENUM_NAME_ENDERS\<close> from \<open>index\<close>; the default
  argument \<open>index = 0\<close> of the source is written out at every call.
\<close>

function endsName :: "char \<Rightarrow> nat \<Rightarrow> bool" where
  "endsName c index =
     (if c = c_at ENUM_NAME_ENDERS index then True
      else if c_at ENUM_NAME_ENDERS index = NUL then False
      else endsName c (index + 1))"
  by pat_completeness auto
termination
  by (relation "measure (\<lambda>(c, index). length ENUM_NAME_ENDERS - index)")
     (auto simp: c_at_def split: if_splits)

declare endsName.simps [simp del]

text \<open>\<open>_toLowercaseAscii(c)\<close>: \<open>c >= 0x41 && c <= 0x5A ? c + 0x20 : c\<close>.\<close>

definition toLowercaseAscii :: "char \<Rightarrow> char" where
  "toLowercaseAscii c =
     (if (0x41::nat) \<le> of_char c \<and> of_char c \<le> (0x5A::nat)
      then char_of (of_char c + (0x20::nat)) else c)"

text \<open>\<open>_namesMatch(stringizedName, referenceName, index)\<close>\<close>

function namesMatch :: "string \<Rightarrow> string \<Rightarrow> nat \<Rightarrow> bool" where
  "namesMatch stringizedName referenceName index =
     (if endsName (c_at stringizedName index) 0 then c_at referenceName index = NUL
      else if c_at referenceName index = NUL then False
      else if c_at stringizedName index \<noteq> c_at referenceName index then False
      else namesMatch stringizedName referenceName (index + 1))"
  by pat_completeness auto

lemma endsName_NUL: "endsName NUL 0"
  by (simp add: endsName.simps c_at_def ENUM_NAME_ENDERS_def NUL_def)

lemma not_endsName_in_range: "\<not> endsName (c_at s i) 0 \<Longrightarrow> i < length s"
  by (cases "i < length s") (simp_all add: c_at_def endsName_NUL)

lemma not_endsName_measure:
  "\<not> endsName (c_at s i) 0 \<Longrightarrow> length s - Suc i < length s - i"
  using not_endsName_in_range [of s i] by simp

termination namesMatch
proof (relation "measure (\<lambda>(s, r, index). length s - index)")
  show "wf (measure (\<lambda>(s, r, index). length s - index))"
    by simp
next
  fix stringizedName referenceName :: string and index :: nat
  assume "\<not> endsName (c_at stringizedName index) 0"
  then show "((stringizedName, referenceName, index + 1), stringizedName, referenceName, index)
      \<in> measure (\<lambda>(s, r, index). length s - index)"
    by (simp add: not_endsName_measure)
qed

declare namesMatch.simps [simp del]

text \<open>\<open>_namesMatchNocase(stringizedName, referenceName, index)\<close>\<close>

function namesMatchNocase :: "string \<Rightarrow> string \<Rightarrow> nat \<Rightarrow> bool" where
  "namesMatchNocase stringizedName referenceName index =
     (if endsName (c_at stringizedName index) 0 then c_at referenceName index = NUL
      else if c_at referenceName index = NUL then False
      else if toLowercaseAscii (c_at stringizedName index) \<noteq>
              toLowercaseAscii (c_at referenceName index) then False
      else namesMatchNocase stringizedName referenceName (index + 1))"
  by pat_completeness auto
termination
proof (relation "measure (\<lambda>(s, r, index). length s - index)")
  show "wf (measure (\<lambda>(s, r, index). length s - index))"
    by simp
next
  fix stringizedName referenceName :: string and index :: nat
  assume "\<not> endsName (c_at stringizedName index) 0"
  then show "((stringizedName, referenceName, index + 1), stringizedName, referenceName, index)
      \<in> measure (\<lambda>(s, r, index). length s - index)"
    by (simp add: not_endsName_measure)
qed

declare namesMatchNocase.simps [simp del]


section \<open>The generated arrays and the enum type\<close>

text \<open>
  Exceptions of the source are error values. \<open>undefined_behaviour\<close> marks what C++ leaves
  undefined (a read or write outside an array, a read of an uninitialised object, a signed
  overflow); in a constant expression it makes the program ill-formed.
\<close>

datatype error = runtime_error string | domain_error string | undefined_behaviour

text \<open>An integral type: its signedness and its width in bits.\<close>

datatype integral = Signed nat | Unsigned nat

fun in_range :: "integral \<Rightarrow> int \<Rightarrow> bool" where
  "in_range (Signed w) v = (- (2 ^ (w - 1)) \<le> v \<and> v < 2 ^ (w - 1))"
| "in_range (Unsigned w) v = (0 \<le> v \<and> v < 2 ^ w)"

text \<open>
  \<open>_GeneratedArrays<Tag>\<close>: the underlying type \<open>_Integral\<close>, the values of the
  constants (\<open>_value_array\<close>) and their stringized declarations (\<open>_name_array\<close>).
\<close>

record generated_arrays =
  Integral :: integral
  value_array :: "int list"
  name_array :: "string list"

text \<open>\<open>_size = sizeof(_value_array) / sizeof(_Enumerated)\<close>\<close>

definition size_e :: "generated_arrays \<Rightarrow> nat" where
  "size_e e = length (value_array e)"

text \<open>\<open>#define _ENUM_NOT_FOUND ((size_t)-1)\<close>, with a \<open>size_t\<close> of 64 bits.\<close>

definition size_t_bits :: nat where
  "size_t_bits = 64"

definition ENUM_NOT_FOUND :: nat where
  "ENUM_NOT_FOUND = 2 ^ size_t_bits - 1"

text \<open>An object of the class \<open>_Enum\<close> holds \<open>_value\<close>; \<open>to_int()\<close> returns it.\<close>

datatype Enum = Enum (to_int: int)

text \<open>\<open>_Enum::_from_int_unchecked(value)\<close>\<close>

definition from_int_unchecked :: "int \<Rightarrow> Enum" where
  "from_int_unchecked value = Enum value"

section \<open>Lookup\<close>

text \<open>\<open>_Enum::_from_int_loop(value, throw_exception, index)\<close>\<close>

function from_int_loop :: "generated_arrays \<Rightarrow> int \<Rightarrow> bool \<Rightarrow> nat \<Rightarrow> error + nat" where
  "from_int_loop e value throw_exception index =
     (if index = size_e e then
        (if throw_exception then Inl (runtime_error ''Enum::from_int: invalid integer value'')
         else Inr ENUM_NOT_FOUND)
      else if index < length (value_array e) then
        (if value_array e ! index = value then Inr index
         else from_int_loop e value throw_exception (index + 1))
      else Inl undefined_behaviour)"
  by pat_completeness auto
termination
  by (relation "measure (\<lambda>(e, v, t, index). length (value_array e) - index)") auto

declare from_int_loop.simps [simp del]

text \<open>\<open>_Enum::_from_string_loop(name, throw_exception, index)\<close>\<close>

function from_string_loop :: "generated_arrays \<Rightarrow> string \<Rightarrow> bool \<Rightarrow> nat \<Rightarrow> error + nat" where
  "from_string_loop e name throw_exception index =
     (if index = size_e e then
        (if throw_exception then
           Inl (runtime_error ''Enum::_from_string: invalid string argument'')
         else Inr ENUM_NOT_FOUND)
      else if index < length (name_array e) then
        (if namesMatch (name_array e ! index) name 0 then Inr index
         else from_string_loop e name throw_exception (index + 1))
      else Inl undefined_behaviour)"
  by pat_completeness auto
termination
  by (relation "measure (\<lambda>(e, n, t, index). length (name_array e) - index)") auto

declare from_string_loop.simps [simp del]

text \<open>\<open>_Enum::_from_string_nocase_loop(name, throw_exception, index)\<close>\<close>

function from_string_nocase_loop ::
  "generated_arrays \<Rightarrow> string \<Rightarrow> bool \<Rightarrow> nat \<Rightarrow> error + nat" where
  "from_string_nocase_loop e name throw_exception index =
     (if index = size_e e then
        (if throw_exception then
           Inl (runtime_error ''Enum::_from_string_nocase: invalid string argument'')
         else Inr ENUM_NOT_FOUND)
      else if index < length (name_array e) then
        (if namesMatchNocase (name_array e ! index) name 0 then Inr index
         else from_string_nocase_loop e name throw_exception (index + 1))
      else Inl undefined_behaviour)"
  by pat_completeness auto
termination
  by (relation "measure (\<lambda>(e, n, t, index). length (name_array e) - index)") auto

declare from_string_nocase_loop.simps [simp del]

text \<open>
  \<open>_value_array[i]\<close> for an index a lookup returned: the element, or undefined behaviour
  outside the array.
\<close>

definition value_at :: "generated_arrays \<Rightarrow> nat \<Rightarrow> error + Enum" where
  "value_at e i =
     (if i < length (value_array e) then Inr (Enum (value_array e ! i))
      else Inl undefined_behaviour)"

text \<open>\<open>_from_int\<close>, \<open>_from_string\<close>, \<open>_from_string_nocase\<close>: the assert-mode conversions.\<close>

definition from_int :: "generated_arrays \<Rightarrow> int \<Rightarrow> error + Enum" where
  "from_int e value =
     (case from_int_loop e value True 0 of Inl err \<Rightarrow> Inl err | Inr i \<Rightarrow> value_at e i)"

definition from_string :: "generated_arrays \<Rightarrow> string \<Rightarrow> error + Enum" where
  "from_string e name =
     (case from_string_loop e name True 0 of Inl err \<Rightarrow> Inl err | Inr i \<Rightarrow> value_at e i)"

definition from_string_nocase :: "generated_arrays \<Rightarrow> string \<Rightarrow> error + Enum" where
  "from_string_nocase e name =
     (case from_string_nocase_loop e name True 0 of
        Inl err \<Rightarrow> Inl err | Inr i \<Rightarrow> value_at e i)"

text \<open>
  \<open>_is_valid(value)\<close>, \<open>_is_valid(name)\<close> and \<open>_is_valid_nocase(name)\<close>: the query-mode
  wrappers. The two overloads of \<open>_is_valid\<close> get two names.
\<close>

definition is_valid :: "generated_arrays \<Rightarrow> int \<Rightarrow> error + bool" where
  "is_valid e value =
     (case from_int_loop e value False 0 of
        Inl err \<Rightarrow> Inl err | Inr i \<Rightarrow> Inr (i \<noteq> ENUM_NOT_FOUND))"

definition is_valid_name :: "generated_arrays \<Rightarrow> string \<Rightarrow> error + bool" where
  "is_valid_name e name =
     (case from_string_loop e name False 0 of
        Inl err \<Rightarrow> Inl err | Inr i \<Rightarrow> Inr (i \<noteq> ENUM_NOT_FOUND))"

definition is_valid_nocase :: "generated_arrays \<Rightarrow> string \<Rightarrow> error + bool" where
  "is_valid_nocase e name =
     (case from_string_nocase_loop e name False 0 of
        Inl err \<Rightarrow> Inl err | Inr i \<Rightarrow> Inr (i \<noteq> ENUM_NOT_FOUND))"

section \<open>Range\<close>

text \<open>\<open>_range::_findMinLoop(values, valueCount, index, best)\<close>\<close>

function findMinLoop :: "int list \<Rightarrow> nat \<Rightarrow> nat \<Rightarrow> int \<Rightarrow> error + int" where
  "findMinLoop values valueCount index best =
     (if index = valueCount then Inr best
      else if index < length values then
        (if values ! index < best then findMinLoop values valueCount (index + 1) (values ! index)
         else findMinLoop values valueCount (index + 1) best)
      else Inl undefined_behaviour)"
  by pat_completeness auto
termination
  by (relation "measure (\<lambda>(values, n, index, best). length values - index)") auto

declare findMinLoop.simps [simp del]

text \<open>\<open>_range::_findMin(values, valueCount)\<close>\<close>

definition findMin :: "int list \<Rightarrow> nat \<Rightarrow> error + int" where
  "findMin values valueCount =
     (if 0 < length values then findMinLoop values valueCount 1 (values ! 0)
      else Inl undefined_behaviour)"

text \<open>\<open>_range::_findMaxLoop(values, valueCount, index, best)\<close>\<close>

function findMaxLoop :: "int list \<Rightarrow> nat \<Rightarrow> nat \<Rightarrow> int \<Rightarrow> error + int" where
  "findMaxLoop values valueCount index best =
     (if index = valueCount then Inr best
      else if index < length values then
        (if values ! index > best then findMaxLoop values valueCount (index + 1) (values ! index)
         else findMaxLoop values valueCount (index + 1) best)
      else Inl undefined_behaviour)"
  by pat_completeness auto
termination
  by (relation "measure (\<lambda>(values, n, index, best). length values - index)") auto

declare findMaxLoop.simps [simp del]

text \<open>\<open>_range::_findMax(values, count)\<close>\<close>

definition findMax :: "int list \<Rightarrow> nat \<Rightarrow> error + int" where
  "findMax values count =
     (if 0 < length values then findMaxLoop values count 1 (values ! 0)
      else Inl undefined_behaviour)"

text \<open>\<open>_min = _range::_findMin(_value_array, _size)\<close> and \<open>_max\<close> likewise.\<close>

definition min_e :: "generated_arrays \<Rightarrow> error + int" where
  "min_e e = findMin (value_array e) (size_e e)"

definition max_e :: "generated_arrays \<Rightarrow> error + int" where
  "max_e e = findMax (value_array e) (size_e e)"

text \<open>
  \<open>_span = _max - _min + 1\<close>. The operands have the type \<open>_Enumerated\<close>, an unscoped
  enumeration of underlying type \<open>_Integral\<close>: the subtraction and the addition are done
  in the promoted underlying type (\<open>int\<close>, of 32 bits, when it holds every value of
  \<open>_Integral\<close>; \<open>_Integral\<close> itself otherwise), and the result is converted to
  \<open>size_t\<close>. Unsigned arithmetic wraps around; a signed overflow is undefined.
\<close>

definition int_bits :: nat where
  "int_bits = 32"

fun promoted :: "integral \<Rightarrow> integral" where
  "promoted (Signed w) = (if w \<le> int_bits then Signed int_bits else Signed w)"
| "promoted (Unsigned w) = (if w < int_bits then Signed int_bits else Unsigned w)"

fun arith :: "integral \<Rightarrow> int \<Rightarrow> error + int" where
  "arith (Signed w) r = (if in_range (Signed w) r then Inr r else Inl undefined_behaviour)"
| "arith (Unsigned w) r = Inr (r mod 2 ^ w)"

definition to_size_t :: "int \<Rightarrow> nat" where
  "to_size_t r = nat (r mod 2 ^ size_t_bits)"

definition span :: "generated_arrays \<Rightarrow> error + nat" where
  "span e =
     (case max_e e of Inl err \<Rightarrow> Inl err | Inr mx \<Rightarrow>
      case min_e e of Inl err \<Rightarrow> Inl err | Inr mn \<Rightarrow>
      case arith (promoted (Integral e)) (mx - mn) of Inl err \<Rightarrow> Inl err | Inr d \<Rightarrow>
      case arith (promoted (Integral e)) (d + 1) of Inl err \<Rightarrow> Inl err | Inr s \<Rightarrow>
      Inr (to_size_t s))"

section \<open>The name processor\<close>

text \<open>
  The functions of the C library that \<open>_processNames\<close> calls, after the C standard.
  \<open>strlen s\<close> is the number of bytes before the terminator; \<open>strpbrk s accept\<close> is the
  offset in \<open>s\<close> of its first byte that occurs in \<open>accept\<close>, or \<open>None\<close> (the null
  pointer) when the string has none.
\<close>

definition strlen :: "string \<Rightarrow> nat" where
  "strlen s = length (takeWhile (\<lambda>c. c \<noteq> NUL) s)"

definition strpbrk :: "string \<Rightarrow> string \<Rightarrow> nat option" where
  "strpbrk s accept =
     (let k = length (takeWhile (\<lambda>c. c \<noteq> NUL \<and> c \<notin> set accept) s)
      in if c_at s k = NUL then None else Some k)"

text \<open>
  Heap storage is a list of cells; a cell is \<open>None\<close> until it is written. A pointer into
  the storage is an offset. \<open>strncpy buf dst src n\<close> writes \<open>n\<close> bytes at offset
  \<open>dst\<close> of \<open>buf\<close>: the bytes of \<open>src\<close>, then null bytes when \<open>src\<close> is shorter than
  \<open>n\<close>. A write outside the storage is undefined.
\<close>

definition strncpy :: "char option list \<Rightarrow> nat \<Rightarrow> string \<Rightarrow> nat \<Rightarrow> error + char option list" where
  "strncpy buf dst src n =
     (if dst + n \<le> length buf then
        Inr (take dst buf @ map (\<lambda>i. Some (if i < strlen src then src ! i else NUL)) [0..<n]
             @ drop (dst + n) buf)
      else Inl undefined_behaviour)"

text \<open>
  What \<open>_processNames\<close> returns: the array \<open>processedNames\<close> of pointers, and the storage
  \<open>nameStorage\<close> they point into.
\<close>

record name_table =
  processedNames :: "nat option list"
  nameStorage :: "char option list"

text \<open>The first loop of \<open>_processNames\<close>: \<open>bytesNeeded += std::strlen(rawNames[index]) + 1\<close>.\<close>

function bytesNeeded_loop :: "string list \<Rightarrow> nat \<Rightarrow> nat \<Rightarrow> nat \<Rightarrow> error + nat" where
  "bytesNeeded_loop rawNames count index bytesNeeded =
     (if index < count then
        (if index < length rawNames then
           bytesNeeded_loop rawNames count (index + 1)
             (bytesNeeded + (strlen (rawNames ! index) + 1))
         else Inl undefined_behaviour)
      else Inr bytesNeeded)"
  by pat_completeness auto
termination
  by (relation "measure (\<lambda>(rawNames, count, index, b). length rawNames - index)") auto

declare bytesNeeded_loop.simps [simp del]

text \<open>The second loop of \<open>_processNames\<close>: trims each name into the storage.\<close>

function processNames_loop ::
  "string list \<Rightarrow> nat \<Rightarrow> nat \<Rightarrow> name_table \<Rightarrow> nat \<Rightarrow> error + name_table" where
  "processNames_loop rawNames count index tbl writePointer =
     (if index < count then
        (if index < length rawNames \<and> index < length (processedNames tbl) then
           (let nameEnd = strpbrk (rawNames ! index) ENUM_NAME_ENDERS;
                symbolCount =
                  (case nameEnd of None \<Rightarrow> strlen (rawNames ! index) | Some k \<Rightarrow> k)
            in case strncpy (nameStorage tbl) writePointer (rawNames ! index) symbolCount of
                 Inl err \<Rightarrow> Inl err
               | Inr buf \<Rightarrow>
                   (if writePointer + symbolCount < length buf then
                      processNames_loop rawNames count (index + 1)
                        \<lparr>processedNames = (processedNames tbl)[index := Some writePointer],
                         nameStorage = buf[writePointer + symbolCount := Some NUL]\<rparr>
                        (writePointer + symbolCount + 1)
                    else Inl undefined_behaviour))
         else Inl undefined_behaviour)
      else Inr tbl)"
  by pat_completeness auto
termination
  by (relation "measure (\<lambda>(rawNames, count, index, tbl, w). count - index)") auto

declare processNames_loop.simps [simp del]

text \<open>
  \<open>_enum::_processNames(rawNames, count)\<close>. Both \<open>new\<close> expressions are taken to
  succeed (a failing \<open>new\<close> throws, it does not return the null pointer).
\<close>

definition processNames :: "string list \<Rightarrow> nat \<Rightarrow> error + name_table" where
  "processNames rawNames count =
     (case bytesNeeded_loop rawNames count 0 0 of
        Inl err \<Rightarrow> Inl err
      | Inr bytesNeeded \<Rightarrow>
          processNames_loop rawNames count 0
            \<lparr>processedNames = replicate count None,
             nameStorage = replicate bytesNeeded None\<rparr> 0)"

text \<open>
  The static member \<open>_processedNames\<close> is the state of an enum type: \<open>None\<close> is the null
  pointer it starts with. \<open>_Enum::_processNames()\<close> fills it once.
\<close>

definition Enum_processNames ::
  "generated_arrays \<Rightarrow> name_table option \<Rightarrow> error + name_table" where
  "Enum_processNames e st =
     (case st of None \<Rightarrow> processNames (name_array e) (size_e e) | Some tbl \<Rightarrow> Inr tbl)"

text \<open>\<open>_Enum::_getProcessedName(index)\<close>: the pointer read, and the state after the call.\<close>

definition getProcessedName ::
  "generated_arrays \<Rightarrow> name_table option \<Rightarrow> nat \<Rightarrow> (error + nat) \<times> name_table option" where
  "getProcessedName e st index =
     (case Enum_processNames e st of
        Inl err \<Rightarrow> (Inl err, st)
      | Inr tbl \<Rightarrow>
          (if index < length (processedNames tbl) then
             (case processedNames tbl ! index of
                None \<Rightarrow> Inl undefined_behaviour | Some p \<Rightarrow> Inr p)
           else Inl undefined_behaviour, Some tbl))"

text \<open>The loop of \<open>_Enum::to_string()\<close> and the \<open>throw\<close> behind it.\<close>

function to_string_loop :: "generated_arrays \<Rightarrow> name_table \<Rightarrow> Enum \<Rightarrow> nat \<Rightarrow> error + nat" where
  "to_string_loop e tbl x index =
     (if index < size_e e then
        (if value_array e ! index = to_int x then
           (if index < length (processedNames tbl) then
              (case processedNames tbl ! index of
                 None \<Rightarrow> Inl undefined_behaviour | Some p \<Rightarrow> Inr p)
            else Inl undefined_behaviour)
         else to_string_loop e tbl x (index + 1))
      else Inl (domain_error ''Enum::_to_string: invalid enum value''))"
  by pat_completeness auto
termination
  by (relation "measure (\<lambda>(e, tbl, x, index). size_e e - index)") auto

declare to_string_loop.simps [simp del]

text \<open>\<open>_Enum::to_string()\<close>: the pointer returned or the exception, and the state after.\<close>

definition to_string ::
  "generated_arrays \<Rightarrow> name_table option \<Rightarrow> Enum \<Rightarrow> (error + nat) \<times> name_table option" where
  "to_string e st x =
     (case Enum_processNames e st of
        Inl err \<Rightarrow> (Inl err, st)
      | Inr tbl \<Rightarrow> (to_string_loop e tbl x 0, Some tbl))"

text \<open>
  The string a returned pointer points to: the bytes of the storage from the offset to the
  first null byte; \<open>None\<close> when an unwritten cell or the end of the storage comes first.
\<close>

fun c_str :: "char option list \<Rightarrow> string option" where
  "c_str [] = None"
| "c_str (None # bs) = None"
| "c_str (Some c # bs) = (if c = NUL then Some [] else map_option ((#) c) (c_str bs))"

definition string_at :: "name_table option \<Rightarrow> nat \<Rightarrow> string option" where
  "string_at st p = (case st of None \<Rightarrow> None | Some tbl \<Rightarrow> c_str (drop p (nameStorage tbl)))"

section \<open>Notions of the specification\<close>

text \<open>
  The trimmed name of a stringized declaration: the declaration truncated at its first
  ender character.
\<close>

definition trimmed :: "string \<Rightarrow> string" where
  "trimmed raw = takeWhile (\<lambda>c. \<not> endsName c 0) raw"

text \<open>The string a \<open>const char *\<close> argument denotes: the bytes before its first null byte.\<close>

definition c_string :: "string \<Rightarrow> string" where
  "c_string s = takeWhile (\<lambda>c. c \<noteq> NUL) s"

text \<open>ASCII case folding of a string.\<close>

definition lowercase :: "string \<Rightarrow> string" where
  "lowercase s = map toLowercaseAscii s"

text \<open>The smallest index in \<open>[i, n)\<close> that satisfies \<open>P\<close>.\<close>

definition first_index :: "(nat \<Rightarrow> bool) \<Rightarrow> nat \<Rightarrow> nat \<Rightarrow> nat option" where
  "first_index P i n = List.find P [i..<n]"

text \<open>
  The bytes the name processor is to produce: every trimmed name followed by a null byte,
  in the order of the declarations; and the offsets at which the names then start, for a
  first name that starts at \<open>wp\<close>.
\<close>

definition layout :: "string list \<Rightarrow> string" where
  "layout raws = concat (map (\<lambda>raw. trimmed raw @ [NUL]) raws)"

fun offsets_from :: "nat \<Rightarrow> string list \<Rightarrow> nat list" where
  "offsets_from wp [] = []"
| "offsets_from wp (raw # raws) = wp # offsets_from (wp + length (trimmed raw) + 1) raws"

text \<open>
  The states of the static member \<open>_processedNames\<close> that a program can reach: the null
  pointer, or the table that \<open>_processNames\<close> built for the raw names of the type.
\<close>

definition reachable :: "generated_arrays \<Rightarrow> name_table option \<Rightarrow> bool" where
  "reachable e st =
     (case st of None \<Rightarrow> True
      | Some tbl \<Rightarrow> processNames (name_array e) (size_e e) = Inr tbl)"

text \<open>
  Modelled from the spec: the macro \<open>_ENUM_PP_MAP\<close> of \<open>enum_preprocessor_map.h\<close>, which
  is not among the sources. It applies \<open>_ENUM_EAT_ASSIGN_SINGLE\<close> and
  \<open>_ENUM_STRINGIZE_SINGLE\<close> to each declaration in turn, so the value table and the raw
  name table have matching indices. Besides that, a generated type has at least one constant
  (the \<open>static_assert\<close> on \<open>_size\<close>), a number of constants that a \<open>size_t\<close> can hold
  besides \<open>_ENUM_NOT_FOUND\<close>, and values of the underlying type.
\<close>

definition generated :: "generated_arrays \<Rightarrow> bool" where
  "generated e \<longleftrightarrow>
     0 < size_e e \<and> length (name_array e) = size_e e \<and> size_e e \<le> ENUM_NOT_FOUND \<and>
     list_all (in_range (Integral e)) (value_array e)"

section \<open>Example enum types\<close>

text \<open>\<open>ENUM(Letters, int, A = 10, B, C = 5)\<close>\<close>

definition Letters :: generated_arrays where
  "Letters = \<lparr>Integral = Signed 32, value_array = [10, 11, 5],
     name_array = [''A = 10'', ''B'', ''C = 5'']\<rparr>"

text \<open>\<open>ENUM(Alias, int, X, Y = X)\<close>\<close>

definition Alias :: generated_arrays where
  "Alias = \<lparr>Integral = Signed 32, value_array = [0, 0], name_array = [''X'', ''Y = X'']\<rparr>"

text \<open>\<open>ENUM(Wide, uint32_t, Low, High = 0xFFFFFFFF)\<close>\<close>

definition Wide :: generated_arrays where
  "Wide = \<lparr>Integral = Unsigned 32, value_array = [0, 4294967295],
     name_array = [''Low'', ''High = 0xFFFFFFFF'']\<rparr>"

section \<open>The name-ender matcher\<close>

lemma endsName_step:
  "endsName c i =
     (c = c_at ENUM_NAME_ENDERS i \<or> (c_at ENUM_NAME_ENDERS i \<noteq> NUL \<and> endsName c (Suc i)))"
  by (subst endsName.simps) auto

lemma endsName_0:
  "endsName c 0 =
     (c = CHR ''='' \<or> c = CHR '' '' \<or> c = CHR 0x09 \<or> c = CHR 0x0A \<or> c = NUL)"
proof -
  have e4: "endsName c (Suc (Suc (Suc (Suc 0)))) = (c = NUL)"
    by (subst endsName_step) (simp add: c_at_def ENUM_NAME_ENDERS_def)
  have e3: "endsName c (Suc (Suc (Suc 0))) = (c = CHR 0x0A \<or> c = NUL)"
    by (subst endsName_step) (simp add: e4 c_at_def ENUM_NAME_ENDERS_def NUL_def)
  have e2: "endsName c (Suc (Suc 0)) = (c = CHR 0x09 \<or> c = CHR 0x0A \<or> c = NUL)"
    by (subst endsName_step) (simp add: e3 c_at_def ENUM_NAME_ENDERS_def NUL_def)
  have e1: "endsName c (Suc 0) =
      (c = CHR '' '' \<or> c = CHR 0x09 \<or> c = CHR 0x0A \<or> c = NUL)"
    by (subst endsName_step) (simp add: e2 c_at_def ENUM_NAME_ENDERS_def NUL_def)
  show ?thesis
    by (subst endsName_step) (simp add: e1 c_at_def ENUM_NAME_ENDERS_def NUL_def)
qed

text \<open>
  C6, as the specification states it: \<open>endsName(c)\<close> is true if and only if \<open>c\<close> is a
  space, a tab, a newline or the null terminator. The equals sign refutes it: it ends a
  name, and it is none of the four.
\<close>

theorem C6_equals_sign_ends_name:
  "endsName (CHR ''='') 0 \<and> CHR ''='' \<notin> {CHR '' '', CHR 0x09, CHR 0x0A, CHR 0x00}"
  by (simp add: endsName_0)

text \<open>
  C6, amended: \<open>endsName(c)\<close> is true if and only if \<open>c\<close> is the equals sign, a space,
  a tab, a newline or the null terminator, the five bytes of the array
  \<open>_ENUM_NAME_ENDERS\<close>.
\<close>

theorem C6_endsName_iff:
  "endsName c 0 \<longleftrightarrow> c \<in> {CHR ''='', CHR '' '', CHR 0x09, CHR 0x0A, CHR 0x00}"
  by (simp add: endsName_0 NUL_def)

theorem C6_endsName_iff_witness:
  "endsName (CHR ''A'') 0 = (CHR ''A'' \<in> {CHR ''='', CHR '' '', CHR 0x09, CHR 0x0A, CHR 0x00})
   \<and> \<not> endsName (CHR ''A'') 0"
  using C6_endsName_iff [of "CHR ''A''"] by simp

section \<open>The name comparator\<close>

lemma trimmed_drop_ender:
  assumes "endsName (c_at raw i) 0"
  shows "trimmed (drop i raw) = []"
proof (cases "i < length raw")
  case True
  then have "drop i raw = raw ! i # drop (Suc i) raw"
    by (rule Cons_nth_drop_Suc [symmetric])
  moreover have "endsName (raw ! i) 0"
    using assms True by (simp add: c_at_def)
  ultimately show ?thesis
    by (simp add: trimmed_def)
next
  case False
  then show ?thesis
    by (simp add: trimmed_def)
qed

lemma trimmed_drop_step:
  assumes "\<not> endsName (c_at raw i) 0"
  shows "trimmed (drop i raw) = raw ! i # trimmed (drop (Suc i) raw)"
proof -
  have lt: "i < length raw"
    using assms by (rule not_endsName_in_range)
  then have "drop i raw = raw ! i # drop (Suc i) raw"
    by (rule Cons_nth_drop_Suc [symmetric])
  moreover have "\<not> endsName (raw ! i) 0"
    using assms lt by (simp add: c_at_def)
  ultimately show ?thesis
    by (simp add: trimmed_def)
qed

lemma c_string_drop_NUL:
  assumes "c_at ref i = NUL"
  shows "c_string (drop i ref) = []"
proof (cases "i < length ref")
  case True
  then have "drop i ref = ref ! i # drop (Suc i) ref"
    by (rule Cons_nth_drop_Suc [symmetric])
  moreover have "ref ! i = NUL"
    using assms True by (simp add: c_at_def)
  ultimately show ?thesis
    by (simp add: c_string_def)
next
  case False
  then show ?thesis
    by (simp add: c_string_def)
qed

lemma c_string_drop_step:
  assumes "c_at ref i \<noteq> NUL"
  shows "c_string (drop i ref) = ref ! i # c_string (drop (Suc i) ref)"
proof -
  have lt: "i < length ref"
    using assms by (cases "i < length ref") (simp_all add: c_at_def)
  then have "drop i ref = ref ! i # drop (Suc i) ref"
    by (rule Cons_nth_drop_Suc [symmetric])
  moreover have "ref ! i \<noteq> NUL"
    using assms lt by (simp add: c_at_def)
  ultimately show ?thesis
    by (simp add: c_string_def)
qed

lemma c_string_drop_Nil_iff: "(c_string (drop i ref) = []) = (c_at ref i = NUL)"
proof (cases "c_at ref i = NUL")
  case True
  then show ?thesis by (simp add: c_string_drop_NUL)
next
  case False
  then show ?thesis by (simp add: c_string_drop_step [OF False])
qed

lemma namesMatch_drop:
  "namesMatch raw ref index = (trimmed (drop index raw) = c_string (drop index ref))"
proof (induction raw ref index rule: namesMatch.induct)
  case (1 raw ref index)
  show ?case
  proof (cases "endsName (c_at raw index) 0")
    case True
    then have "namesMatch raw ref index = (c_at ref index = NUL)"
      by (subst namesMatch.simps) simp
    with True show ?thesis
      by (simp only: trimmed_drop_ender c_string_drop_Nil_iff [symmetric]) auto
  next
    case notend: False
    show ?thesis
    proof (cases "c_at ref index = NUL")
      case True
      with notend have "namesMatch raw ref index = False"
        by (subst namesMatch.simps) simp
      then show ?thesis
        by (simp add: trimmed_drop_step [OF notend] c_string_drop_NUL [OF True])
    next
      case False
      have in_ref: "ref ! index = c_at ref index"
        using False by (auto simp: c_at_def split: if_splits)
      have in_raw: "raw ! index = c_at raw index"
        using not_endsName_in_range [OF notend] by (simp add: c_at_def)
      show ?thesis
      proof (cases "c_at raw index = c_at ref index")
        case True
        with notend False have "namesMatch raw ref index = namesMatch raw ref (index + 1)"
          by (subst namesMatch.simps) simp
        also have "\<dots> = (trimmed (drop (index + 1) raw) = c_string (drop (index + 1) ref))"
          using notend False True by (intro "1.IH") simp_all
        finally show ?thesis
          using True
          by (simp add: trimmed_drop_step [OF notend] c_string_drop_step [OF False] in_ref in_raw)
      next
        case neq: False
        with notend False have "namesMatch raw ref index = False"
          by (subst namesMatch.simps) simp
        with neq show ?thesis
          by (simp add: trimmed_drop_step [OF notend] c_string_drop_step [OF False] in_ref in_raw)
      qed
    qed
  qed
qed

lemma namesMatchNocase_drop:
  "namesMatchNocase raw ref index = (lowercase (trimmed (drop index raw)) = lowercase (c_string (drop index ref)))"
proof (induction raw ref index rule: namesMatchNocase.induct)
  case (1 raw ref index)
  show ?case
  proof (cases "endsName (c_at raw index) 0")
    case True
    then have "namesMatchNocase raw ref index = (c_at ref index = NUL)"
      by (subst namesMatchNocase.simps) simp
    with True show ?thesis
      by (simp add: trimmed_drop_ender c_string_drop_Nil_iff [symmetric] lowercase_def)
  next
    case notend: False
    show ?thesis
    proof (cases "c_at ref index = NUL")
      case True
      with notend have "namesMatchNocase raw ref index = False"
        by (subst namesMatchNocase.simps) simp
      then show ?thesis
        by (simp add: trimmed_drop_step [OF notend] c_string_drop_NUL [OF True] lowercase_def)
    next
      case False
      have in_ref: "ref ! index = c_at ref index"
        using False by (auto simp: c_at_def split: if_splits)
      have in_raw: "raw ! index = c_at raw index"
        using not_endsName_in_range [OF notend] by (simp add: c_at_def)
      show ?thesis
      proof (cases "toLowercaseAscii (c_at raw index) = toLowercaseAscii (c_at ref index)")
        case True
        with notend False have "namesMatchNocase raw ref index = namesMatchNocase raw ref (index + 1)"
          by (subst namesMatchNocase.simps) simp
        also have "\<dots> = (lowercase (trimmed (drop (index + 1) raw)) = lowercase (c_string (drop (index + 1) ref)))"
          using notend False True by (intro "1.IH") simp_all
        finally show ?thesis
          using True
          by (simp add: trimmed_drop_step [OF notend] c_string_drop_step [OF False] in_ref in_raw lowercase_def)
      next
        case neq: False
        with notend False have "namesMatchNocase raw ref index = False"
          by (subst namesMatchNocase.simps) simp
        with neq show ?thesis
          by (simp add: trimmed_drop_step [OF notend] c_string_drop_step [OF False] in_ref in_raw lowercase_def)
      qed
    qed
  qed
qed


section \<open>The lookup engine\<close>

lemma first_index_stop: "first_index P n n = None"
  by (simp add: first_index_def)

lemma first_index_step:
  "i < n \<Longrightarrow> first_index P i n = (if P i then Some i else first_index P (i + 1) n)"
  by (simp add: first_index_def upt_conv_Cons)

lemma first_index_Some_iff:
  "first_index P 0 n = Some i \<longleftrightarrow> i < n \<and> P i \<and> (\<forall>k<i. \<not> P k)"
  by (auto simp: first_index_def find_Some_iff)

lemma first_index_None_iff:
  "first_index P 0 n = None \<longleftrightarrow> (\<forall>k<n. \<not> P k)"
  by (auto simp: first_index_def find_None_iff)

lemma from_int_loop_eq:
  "index \<le> size_e e \<Longrightarrow>
   from_int_loop e v t index =
     (case first_index (\<lambda>k. value_array e ! k = v) index (size_e e) of
        None \<Rightarrow> (if t then Inl (runtime_error ''Enum::from_int: invalid integer value'')
                 else Inr ENUM_NOT_FOUND)
      | Some i \<Rightarrow> Inr i)"
proof (induction e v t index rule: from_int_loop.induct)
  case (1 e v t index)
  show ?case
  proof (cases "index = size_e e")
    case True
    then show ?thesis
      by (subst from_int_loop.simps) (simp add: first_index_stop)
  next
    case False
    with "1.prems" have lt: "index < size_e e" by simp
    show ?thesis
    proof (cases "value_array e ! index = v")
      case True
      with lt show ?thesis
        by (subst from_int_loop.simps) (simp add: first_index_step size_e_def)
    next
      case neq: False
      have "from_int_loop e v t index = from_int_loop e v t (index + 1)"
        using lt neq by (subst from_int_loop.simps) (simp add: size_e_def)
      also have "\<dots> = (case first_index (\<lambda>k. value_array e ! k = v) (index + 1) (size_e e) of
        None \<Rightarrow> (if t then Inl (runtime_error ''Enum::from_int: invalid integer value'')
                 else Inr ENUM_NOT_FOUND)
      | Some i \<Rightarrow> Inr i)"
        using lt neq False by (intro "1.IH") (simp_all add: size_e_def)
      finally show ?thesis
        using lt neq by (simp add: first_index_step)
    qed
  qed
qed

lemma from_string_loop_eq:
  "index \<le> size_e e \<Longrightarrow> length (name_array e) = size_e e \<Longrightarrow>
   from_string_loop e name t index =
     (case first_index (\<lambda>k. namesMatch (name_array e ! k) name 0) index (size_e e) of
        None \<Rightarrow> (if t then Inl (runtime_error ''Enum::_from_string: invalid string argument'')
                 else Inr ENUM_NOT_FOUND)
      | Some i \<Rightarrow> Inr i)"
proof (induction e name t index rule: from_string_loop.induct)
  case (1 e name t index)
  show ?case
  proof (cases "index = size_e e")
    case True
    then show ?thesis
      by (subst from_string_loop.simps) (simp add: first_index_stop)
  next
    case False
    with "1.prems" have lt: "index < size_e e" by simp
    then have lt': "index < length (name_array e)" using "1.prems" by simp
    show ?thesis
    proof (cases "namesMatch (name_array e ! index) name 0")
      case True
      with lt lt' show ?thesis
        by (subst from_string_loop.simps) (simp add: first_index_step)
    next
      case neq: False
      have "from_string_loop e name t index = from_string_loop e name t (index + 1)"
        using lt lt' neq by (subst from_string_loop.simps) simp
      also have "\<dots> = (case first_index (\<lambda>k. namesMatch (name_array e ! k) name 0) (index + 1) (size_e e) of
        None \<Rightarrow> (if t then Inl (runtime_error ''Enum::_from_string: invalid string argument'')
                 else Inr ENUM_NOT_FOUND)
      | Some i \<Rightarrow> Inr i)"
        using lt lt' neq False "1.prems" by (intro "1.IH") simp_all
      finally show ?thesis
        using lt neq by (simp add: first_index_step)
    qed
  qed
qed

lemma from_string_nocase_loop_eq:
  "index \<le> size_e e \<Longrightarrow> length (name_array e) = size_e e \<Longrightarrow>
   from_string_nocase_loop e name t index =
     (case first_index (\<lambda>k. namesMatchNocase (name_array e ! k) name 0) index (size_e e) of
        None \<Rightarrow> (if t then Inl (runtime_error ''Enum::_from_string_nocase: invalid string argument'')
                 else Inr ENUM_NOT_FOUND)
      | Some i \<Rightarrow> Inr i)"
proof (induction e name t index rule: from_string_nocase_loop.induct)
  case (1 e name t index)
  show ?case
  proof (cases "index = size_e e")
    case True
    then show ?thesis
      by (subst from_string_nocase_loop.simps) (simp add: first_index_stop)
  next
    case False
    with "1.prems" have lt: "index < size_e e" by simp
    then have lt': "index < length (name_array e)" using "1.prems" by simp
    show ?thesis
    proof (cases "namesMatchNocase (name_array e ! index) name 0")
      case True
      with lt lt' show ?thesis
        by (subst from_string_nocase_loop.simps) (simp add: first_index_step)
    next
      case neq: False
      have "from_string_nocase_loop e name t index = from_string_nocase_loop e name t (index + 1)"
        using lt lt' neq by (subst from_string_nocase_loop.simps) simp
      also have "\<dots> = (case first_index (\<lambda>k. namesMatchNocase (name_array e ! k) name 0) (index + 1) (size_e e) of
        None \<Rightarrow> (if t then Inl (runtime_error ''Enum::_from_string_nocase: invalid string argument'')
                 else Inr ENUM_NOT_FOUND)
      | Some i \<Rightarrow> Inr i)"
        using lt lt' neq False "1.prems" by (intro "1.IH") simp_all
      finally show ?thesis
        using lt neq by (simp add: first_index_step)
    qed
  qed
qed

lemma first_index_lt: "first_index P 0 n = Some i \<Longrightarrow> i < n"
  by (simp add: first_index_Some_iff)

lemma first_index_mem:
  "first_index (\<lambda>k. xs ! k = v) 0 (length xs) = None \<longleftrightarrow> v \<notin> set xs"
  by (auto simp: first_index_None_iff in_set_conv_nth)

lemma is_valid_total: "\<exists>b. is_valid e v = Inr b"
  by (auto simp add: is_valid_def from_int_loop_eq split: option.split)

lemma is_valid_name_total: "length (name_array e) = size_e e \<Longrightarrow> \<exists>b. is_valid_name e name = Inr b"
  by (auto simp add: is_valid_name_def from_string_loop_eq split: option.split)

lemma is_valid_nocase_total: "length (name_array e) = size_e e \<Longrightarrow> \<exists>b. is_valid_nocase e name = Inr b"
  by (auto simp add: is_valid_nocase_def from_string_nocase_loop_eq split: option.split)

lemma is_valid_in:
  assumes "size_e e \<le> ENUM_NOT_FOUND" "v \<in> set (value_array e)"
  shows "is_valid e v = Inr True" "from_int e v = Inr (Enum v)"
proof -
  from assms(2) obtain i where i: "first_index (\<lambda>k. value_array e ! k = v) 0 (size_e e) = Some i"
    using first_index_mem [of "value_array e" v] by (auto simp: size_e_def)
  then have "i < size_e e" "value_array e ! i = v"
    by (simp_all add: first_index_Some_iff)
  with assms(1) i show "is_valid e v = Inr True" "from_int e v = Inr (Enum v)"
    by (simp_all add: is_valid_def from_int_def from_int_loop_eq value_at_def size_e_def)
qed

lemma is_valid_out:
  assumes "v \<notin> set (value_array e)"
  shows "is_valid e v = Inr False"
    "from_int e v = Inl (runtime_error ''Enum::from_int: invalid integer value'')"
proof -
  from assms have "first_index (\<lambda>k. value_array e ! k = v) 0 (size_e e) = None"
    using first_index_mem [of "value_array e" v] by (simp add: size_e_def)
  then show "is_valid e v = Inr False"
    "from_int e v = Inl (runtime_error ''Enum::from_int: invalid integer value'')"
    by (simp_all add: is_valid_def from_int_def from_int_loop_eq)
qed

lemma generated_Letters: "generated Letters"
  by (simp add: generated_def Letters_def size_e_def ENUM_NOT_FOUND_def size_t_bits_def)

lemma generated_Alias: "generated Alias"
  by (simp add: generated_def Alias_def size_e_def ENUM_NOT_FOUND_def size_t_bits_def)

text \<open>
  C2: a value that occurs in the value table is valid and \<open>from_int\<close> returns its
  instance; a value that does not occur is not valid and \<open>from_int\<close> throws the
  \<open>runtime_error\<close> of an invalid integer; the three query-mode operations return a
  boolean for every argument and never throw.
\<close>

theorem C2_validity:
  assumes "generated e"
  shows "(v \<in> set (value_array e) \<longrightarrow> is_valid e v = Inr True \<and> from_int e v = Inr (Enum v)) \<and>
    (v \<notin> set (value_array e) \<longrightarrow> is_valid e v = Inr False \<and>
       from_int e v = Inl (runtime_error ''Enum::from_int: invalid integer value'')) \<and>
    (\<exists>b. is_valid e v = Inr b) \<and> (\<exists>b. is_valid_name e name = Inr b) \<and>
    (\<exists>b. is_valid_nocase e name = Inr b)"
  using assms is_valid_in [of e v] is_valid_out [of v e] is_valid_total [of e v]
    is_valid_name_total [of e name] is_valid_nocase_total [of e name]
  by (simp add: generated_def)

theorem C2_validity_witness:
  "generated Letters \<and>
   is_valid Letters 11 = Inr True \<and> from_int Letters 11 = Inr (Enum 11) \<and>
   is_valid Letters 7 = Inr False \<and>
   from_int Letters 7 = Inl (runtime_error ''Enum::from_int: invalid integer value'') \<and>
   is_valid_name Letters ''B'' = Inr True \<and> is_valid_nocase Letters ''b c'' = Inr False"
proof -
  have g: "generated Letters" by (rule generated_Letters)
  have "is_valid_name Letters ''B'' = Inr True"
    by (simp add: is_valid_name_def from_string_loop.simps namesMatch.simps endsName_0 c_at_def Letters_def size_e_def NUL_def ENUM_NOT_FOUND_def size_t_bits_def)
  moreover have "is_valid_nocase Letters ''b c'' = Inr False"
    by (simp add: is_valid_nocase_def from_string_nocase_loop.simps namesMatchNocase.simps endsName_0 c_at_def Letters_def size_e_def NUL_def)
  ultimately show ?thesis
    using g C2_validity [OF g, of 11 "''B''"] C2_validity [OF g, of 7 "''b c''"]
    by (simp add: Letters_def)
qed

lemma first_index_least:
  assumes "j < n" "P j"
  shows "\<exists>i\<le>j. first_index P 0 n = Some i \<and> P i \<and> (\<forall>k<i. \<not> P k)"
proof (cases "first_index P 0 n")
  case None
  with assms show ?thesis by (simp add: first_index_None_iff)
next
  case (Some i)
  then have i: "i < n" "P i" "\<forall>k<i. \<not> P k"
    by (simp_all add: first_index_Some_iff)
  with assms have "i \<le> j" by (meson not_le)
  with Some i show ?thesis by simp
qed

lemma namesMatch_iff: "namesMatch raw name 0 = (trimmed raw = c_string name)"
  by (simp add: namesMatch_drop)

lemma namesMatchNocase_iff:
  "namesMatchNocase raw name 0 = (lowercase (trimmed raw) = lowercase (c_string name))"
  by (simp add: namesMatchNocase_drop)

text \<open>
  C4: each of the three lookups (by value, by exact-case name, by case-insensitive name)
  returns the smallest index whose table entry matches the query, whichever entry shows
  that there is a match; for the declarations \<open>{X, Y = X}\<close>, \<open>from_int(0)\<close> finds
  index 0, the index of \<open>X\<close>, and returns the instance there.
\<close>

theorem C4_first_match:
  assumes "generated e"
  shows "(\<forall>j<size_e e. value_array e ! j = v \<longrightarrow>
       (\<exists>i\<le>j. from_int_loop e v t 0 = Inr i \<and> value_array e ! i = v \<and>
          (\<forall>k<i. value_array e ! k \<noteq> v))) \<and>
    (\<forall>j<size_e e. trimmed (name_array e ! j) = c_string name \<longrightarrow>
       (\<exists>i\<le>j. from_string_loop e name t 0 = Inr i \<and>
          trimmed (name_array e ! i) = c_string name \<and>
          (\<forall>k<i. trimmed (name_array e ! k) \<noteq> c_string name))) \<and>
    (\<forall>j<size_e e. lowercase (trimmed (name_array e ! j)) = lowercase (c_string name) \<longrightarrow>
       (\<exists>i\<le>j. from_string_nocase_loop e name t 0 = Inr i \<and>
          lowercase (trimmed (name_array e ! i)) = lowercase (c_string name) \<and>
          (\<forall>k<i. lowercase (trimmed (name_array e ! k)) \<noteq> lowercase (c_string name)))) \<and>
    from_int_loop Alias 0 t 0 = Inr 0 \<and> from_int Alias 0 = value_at Alias 0"
proof -
  have len: "length (name_array e) = size_e e"
    using assms by (simp add: generated_def)
  have a: "\<forall>j<size_e e. value_array e ! j = v \<longrightarrow>
       (\<exists>i\<le>j. from_int_loop e v t 0 = Inr i \<and> value_array e ! i = v \<and>
          (\<forall>k<i. value_array e ! k \<noteq> v))"
  proof (intro allI impI)
    fix j assume "j < size_e e" "value_array e ! j = v"
    from first_index_least [of j "size_e e" "\<lambda>k. value_array e ! k = v", OF this]
    show "\<exists>i\<le>j. from_int_loop e v t 0 = Inr i \<and> value_array e ! i = v \<and>
          (\<forall>k<i. value_array e ! k \<noteq> v)"
      by (auto simp: from_int_loop_eq)
  qed
  have b: "\<forall>j<size_e e. trimmed (name_array e ! j) = c_string name \<longrightarrow>
       (\<exists>i\<le>j. from_string_loop e name t 0 = Inr i \<and>
          trimmed (name_array e ! i) = c_string name \<and>
          (\<forall>k<i. trimmed (name_array e ! k) \<noteq> c_string name))"
  proof (intro allI impI)
    fix j assume "j < size_e e" "trimmed (name_array e ! j) = c_string name"
    from first_index_least [of j "size_e e" "\<lambda>k. trimmed (name_array e ! k) = c_string name", OF this]
    show "\<exists>i\<le>j. from_string_loop e name t 0 = Inr i \<and>
          trimmed (name_array e ! i) = c_string name \<and>
          (\<forall>k<i. trimmed (name_array e ! k) \<noteq> c_string name)"
      by (auto simp: from_string_loop_eq len namesMatch_iff)
  qed
  have c: "\<forall>j<size_e e. lowercase (trimmed (name_array e ! j)) = lowercase (c_string name) \<longrightarrow>
       (\<exists>i\<le>j. from_string_nocase_loop e name t 0 = Inr i \<and>
          lowercase (trimmed (name_array e ! i)) = lowercase (c_string name) \<and>
          (\<forall>k<i. lowercase (trimmed (name_array e ! k)) \<noteq> lowercase (c_string name)))"
  proof (intro allI impI)
    fix j assume "j < size_e e" "lowercase (trimmed (name_array e ! j)) = lowercase (c_string name)"
    from first_index_least [of j "size_e e"
        "\<lambda>k. lowercase (trimmed (name_array e ! k)) = lowercase (c_string name)", OF this]
    show "\<exists>i\<le>j. from_string_nocase_loop e name t 0 = Inr i \<and>
          lowercase (trimmed (name_array e ! i)) = lowercase (c_string name) \<and>
          (\<forall>k<i. lowercase (trimmed (name_array e ! k)) \<noteq> lowercase (c_string name))"
      by (auto simp: from_string_nocase_loop_eq len namesMatchNocase_iff)
  qed
  have d: "from_int_loop Alias 0 t' 0 = Inr 0" for t'
    by (subst from_int_loop.simps) (simp add: Alias_def size_e_def)
  then have "from_int Alias 0 = value_at Alias 0"
    by (simp add: from_int_def)
  with a b c d [of t] show ?thesis by blast
qed


theorem C4_first_match_witness:
  "generated Alias \<and> from_int_loop Alias 0 True 0 = Inr 0 \<and>
   from_string_loop Alias ''X'' False 0 = Inr 0 \<and>
   from_string_nocase_loop Alias ''y'' False 0 = Inr 1 \<and>
   from_int Alias 0 = value_at Alias 0"
proof -
  have g: "generated Alias" by (rule generated_Alias)
  have "from_string_loop Alias ''X'' False 0 = Inr 0"
    by (simp add: from_string_loop.simps namesMatch.simps endsName_0 c_at_def Alias_def
        size_e_def NUL_def)
  moreover have "namesMatchNocase ''X'' ''y'' 0 = False" "namesMatchNocase ''Y = X'' ''y'' 0 = True"
    by code_simp+
  then have "from_string_nocase_loop Alias ''y'' False 0 = Inr 1"
    by (simp add: from_string_nocase_loop.simps Alias_def size_e_def)
  ultimately show ?thesis
    using g C4_first_match [OF g, of 0 True "''X''"] by simp
qed

lemma from_string_nocase_found:
  assumes "length (name_array e) = size_e e"
    and "first_index (\<lambda>k. namesMatchNocase (name_array e ! k) name 0) 0 (size_e e) = Some i"
  shows "from_string_nocase e name = Inr (Enum (value_array e ! i))"
  using assms first_index_lt [OF assms(2)]
  by (simp add: from_string_nocase_def from_string_nocase_loop_eq value_at_def size_e_def)

lemma from_string_nocase_missing:
  assumes "length (name_array e) = size_e e"
    and "first_index (\<lambda>k. namesMatchNocase (name_array e ! k) name 0) 0 (size_e e) = None"
  shows "from_string_nocase e name =
    Inl (runtime_error ''Enum::_from_string_nocase: invalid string argument'')"
  using assms by (simp add: from_string_nocase_def from_string_nocase_loop_eq)

lemma from_string_found:
  assumes "length (name_array e) = size_e e"
    and "first_index (\<lambda>k. namesMatch (name_array e ! k) name 0) 0 (size_e e) = Some i"
  shows "from_string e name = Inr (Enum (value_array e ! i))"
  using assms first_index_lt [OF assms(2)]
  by (simp add: from_string_def from_string_loop_eq value_at_def size_e_def)

lemma from_string_missing:
  assumes "length (name_array e) = size_e e"
    and "first_index (\<lambda>k. namesMatch (name_array e ! k) name 0) 0 (size_e e) = None"
  shows "from_string e name =
    Inl (runtime_error ''Enum::_from_string: invalid string argument'')"
  using assms by (simp add: from_string_def from_string_loop_eq)

lemma toLowercaseAscii_letters:
  "lowercase ''ABCDEFGHIJKLMNOPQRSTUVWXYZ'' = ''abcdefghijklmnopqrstuvwxyz''"
  by code_simp

text \<open>
  C8: \<open>from_string_nocase(s)\<close> returns an instance if and only if the trimmed name of
  some declared constant equals \<open>s\<close> after ASCII case folding of both; otherwise it throws
  the \<open>runtime_error\<close> of an invalid name.
\<close>

theorem C8_nocase_lookup:
  assumes "generated e"
  shows "((\<exists>x. from_string_nocase e s = Inr x) \<longleftrightarrow>
      (\<exists>i<size_e e. lowercase (trimmed (name_array e ! i)) = lowercase (c_string s))) \<and>
    ((\<exists>x. from_string_nocase e s = Inr x) \<or>
      from_string_nocase e s =
        Inl (runtime_error ''Enum::_from_string_nocase: invalid string argument''))"
proof -
  have len: "length (name_array e) = size_e e"
    using assms by (simp add: generated_def)
  show ?thesis
  proof (cases "first_index (\<lambda>k. namesMatchNocase (name_array e ! k) s 0) 0 (size_e e)")
    case None
    from from_string_nocase_missing [OF len None] None show ?thesis
      by (simp add: first_index_None_iff namesMatchNocase_iff)
  next
    case (Some i)
    from from_string_nocase_found [OF len Some] Some show ?thesis
      by (auto simp: first_index_Some_iff namesMatchNocase_iff)
  qed
qed

theorem C8_nocase_lookup_witness:
  "generated Letters \<and> from_string_nocase Letters ''b'' = Inr (Enum 11) \<and>
   (\<exists>x. from_string_nocase Letters ''b'' = Inr x) \<and>
   from_string_nocase Letters ''d'' =
     Inl (runtime_error ''Enum::_from_string_nocase: invalid string argument'')"
proof -
  have g: "generated Letters" by (rule generated_Letters)
  have 1: "lowercase (trimmed (name_array Letters ! 1)) = lowercase (c_string ''b'')"
    by code_simp
  have 2: "(1::nat) < size_e Letters" by (simp add: Letters_def size_e_def)
  from C8_nocase_lookup [OF g, of "''b''"] 1 2
  have 3: "\<exists>x. from_string_nocase Letters ''b'' = Inr x"
    by blast
  have "namesMatchNocase ''A = 10'' ''b'' 0 = False" "namesMatchNocase ''B'' ''b'' 0 = True"
    by code_simp+
  then have 4: "from_string_nocase Letters ''b'' = Inr (Enum 11)"
    by (simp add: from_string_nocase_def from_string_nocase_loop.simps Letters_def size_e_def
        value_at_def)
  have "namesMatchNocase ''A = 10'' ''d'' 0 = False" "namesMatchNocase ''B'' ''d'' 0 = False"
    "namesMatchNocase ''C = 5'' ''d'' 0 = False"
    by code_simp+
  then have 5: "from_string_nocase Letters ''d'' =
     Inl (runtime_error ''Enum::_from_string_nocase: invalid string argument'')"
    by (simp add: from_string_nocase_def from_string_nocase_loop.simps Letters_def size_e_def)
  from g 3 4 5 show ?thesis by simp
qed

text \<open>
  C10: when every raw name begins with a character that is not an ender, the empty string
  is found by no lookup: \<open>is_valid("")\<close> and \<open>is_valid_nocase("")\<close> are false, and
  \<open>from_string("")\<close> and \<open>from_string_nocase("")\<close> throw the \<open>runtime_error\<close> of an
  invalid name.
\<close>

theorem C10_empty_name:
  assumes "generated e" and "\<forall>raw \<in> set (name_array e). \<not> endsName (c_at raw 0) 0"
  shows "is_valid_name e [] = Inr False \<and> is_valid_nocase e [] = Inr False \<and>
    from_string e [] = Inl (runtime_error ''Enum::_from_string: invalid string argument'') \<and>
    from_string_nocase e [] =
      Inl (runtime_error ''Enum::_from_string_nocase: invalid string argument'')"
proof -
  have len: "length (name_array e) = size_e e"
    using assms(1) by (simp add: generated_def)
  have ne: "trimmed (name_array e ! k) \<noteq> []" if "k < size_e e" for k
  proof -
    from that len have "name_array e ! k \<in> set (name_array e)" by simp
    with assms(2) have "\<not> endsName (c_at (name_array e ! k) 0) 0" by blast
    from trimmed_drop_step [OF this] show ?thesis by simp
  qed
  have 1: "first_index (\<lambda>k. namesMatch (name_array e ! k) [] 0) 0 (size_e e) = None"
    using ne by (simp add: first_index_None_iff namesMatch_iff c_string_def)
  have 2: "first_index (\<lambda>k. namesMatchNocase (name_array e ! k) [] 0) 0 (size_e e) = None"
    using ne by (simp add: first_index_None_iff namesMatchNocase_iff c_string_def lowercase_def)
  from 1 2 len show ?thesis
    by (simp add: from_string_missing from_string_nocase_missing is_valid_name_def
        is_valid_nocase_def from_string_loop_eq from_string_nocase_loop_eq)
qed

theorem C10_empty_name_witness:
  "generated Letters \<and> list_all (\<lambda>raw. \<not> endsName (c_at raw 0) 0) (name_array Letters) \<and>
   is_valid_name Letters [] = Inr False \<and> is_valid_nocase Letters [] = Inr False \<and>
   from_string Letters [] = Inl (runtime_error ''Enum::_from_string: invalid string argument'') \<and>
   from_string_nocase Letters [] =
     Inl (runtime_error ''Enum::_from_string_nocase: invalid string argument'')"
proof -
  have g: "generated Letters" by (rule generated_Letters)
  have h: "list_all (\<lambda>raw. \<not> endsName (c_at raw 0) 0) (name_array Letters)"
    by (simp add: Letters_def endsName_0 c_at_def NUL_def)
  then have "\<forall>raw \<in> set (name_array Letters). \<not> endsName (c_at raw 0) 0"
    by (simp add: list_all_iff)
  from C10_empty_name [OF g this] g h show ?thesis by simp
qed

section \<open>The range analyzer\<close>

lemma findMinLoop_spec:
  "index \<le> length vs \<Longrightarrow>
   \<exists>r. findMinLoop vs (length vs) index best = Inr r \<and>
       r \<in> insert best (set (drop index vs)) \<and>
       (\<forall>x \<in> insert best (set (drop index vs)). r \<le> x)"
proof (induction vs "length vs" index best rule: findMinLoop.induct)
  case (1 vs index best)
  show ?case
  proof (cases "index = length vs")
    case True
    then show ?thesis
      by (subst findMinLoop.simps) simp
  next
    case False
    with "1.prems" have lt: "index < length vs" by simp
    then have dr: "drop index vs = vs ! index # drop (Suc index) vs"
      by (rule Cons_nth_drop_Suc [symmetric])
    show ?thesis
    proof (cases "vs ! index < best")
      case True
      have "findMinLoop vs (length vs) index best =
          findMinLoop vs (length vs) (index + 1) (vs ! index)"
        using lt True by (subst findMinLoop.simps) simp
      moreover have "\<exists>r. findMinLoop vs (length vs) (index + 1) (vs ! index) = Inr r \<and>
          r \<in> insert (vs ! index) (set (drop (index + 1) vs)) \<and>
          (\<forall>x \<in> insert (vs ! index) (set (drop (index + 1) vs)). r \<le> x)"
        using lt True False by (intro "1.hyps"(1)) simp_all
      ultimately show ?thesis
        using True by (auto simp: dr)
    next
      case ge: False
      have "findMinLoop vs (length vs) index best =
          findMinLoop vs (length vs) (index + 1) best"
        using lt ge by (subst findMinLoop.simps) simp
      moreover have "\<exists>r. findMinLoop vs (length vs) (index + 1) best = Inr r \<and>
          r \<in> insert best (set (drop (index + 1) vs)) \<and>
          (\<forall>x \<in> insert best (set (drop (index + 1) vs)). r \<le> x)"
        using lt ge False by (intro "1.hyps"(2)) simp_all
      ultimately show ?thesis
        using ge by (auto simp: dr)
    qed
  qed
qed

lemma findMaxLoop_spec:
  "index \<le> length vs \<Longrightarrow>
   \<exists>r. findMaxLoop vs (length vs) index best = Inr r \<and>
       r \<in> insert best (set (drop index vs)) \<and>
       (\<forall>x \<in> insert best (set (drop index vs)). x \<le> r)"
proof (induction vs "length vs" index best rule: findMaxLoop.induct)
  case (1 vs index best)
  show ?case
  proof (cases "index = length vs")
    case True
    then show ?thesis
      by (subst findMaxLoop.simps) simp
  next
    case False
    with "1.prems" have lt: "index < length vs" by simp
    then have dr: "drop index vs = vs ! index # drop (Suc index) vs"
      by (rule Cons_nth_drop_Suc [symmetric])
    show ?thesis
    proof (cases "vs ! index > best")
      case True
      have "findMaxLoop vs (length vs) index best =
          findMaxLoop vs (length vs) (index + 1) (vs ! index)"
        using lt True by (subst findMaxLoop.simps) simp
      moreover have "\<exists>r. findMaxLoop vs (length vs) (index + 1) (vs ! index) = Inr r \<and>
          r \<in> insert (vs ! index) (set (drop (index + 1) vs)) \<and>
          (\<forall>x \<in> insert (vs ! index) (set (drop (index + 1) vs)). x \<le> r)"
        using lt True False by (intro "1.hyps"(1)) simp_all
      ultimately show ?thesis
        using True by (auto simp: dr)
    next
      case ge: False
      have "findMaxLoop vs (length vs) index best =
          findMaxLoop vs (length vs) (index + 1) best"
        using lt ge by (subst findMaxLoop.simps) simp
      moreover have "\<exists>r. findMaxLoop vs (length vs) (index + 1) best = Inr r \<and>
          r \<in> insert best (set (drop (index + 1) vs)) \<and>
          (\<forall>x \<in> insert best (set (drop (index + 1) vs)). x \<le> r)"
        using lt ge False by (intro "1.hyps"(2)) simp_all
      ultimately show ?thesis
        using ge by (auto simp: dr)
    qed
  qed
qed

lemma findMin_eq:
  assumes "vs \<noteq> []"
  shows "findMin vs (length vs) = Inr (Min (set vs))"
proof -
  have "1 \<le> length vs" using assms by (cases vs) simp_all
  from findMinLoop_spec [OF this, of "vs ! 0"]
  obtain r where r: "findMinLoop vs (length vs) 1 (vs ! 0) = Inr r"
    "r \<in> insert (vs ! 0) (set (drop 1 vs))" "\<forall>x \<in> insert (vs ! 0) (set (drop 1 vs)). r \<le> x"
    by blast
  have "insert (vs ! 0) (set (drop 1 vs)) = set vs"
    using assms by (cases vs) simp_all
  with r(2,3) have "r \<in> set vs" "\<forall>x \<in> set vs. r \<le> x" by (simp_all only:)
  then have "Min (set vs) = r"
    by (intro Min_eqI) simp_all
  with r(1) assms show ?thesis by (simp add: findMin_def)
qed

lemma findMax_eq:
  assumes "vs \<noteq> []"
  shows "findMax vs (length vs) = Inr (Max (set vs))"
proof -
  have "1 \<le> length vs" using assms by (cases vs) simp_all
  from findMaxLoop_spec [OF this, of "vs ! 0"]
  obtain r where r: "findMaxLoop vs (length vs) 1 (vs ! 0) = Inr r"
    "r \<in> insert (vs ! 0) (set (drop 1 vs))" "\<forall>x \<in> insert (vs ! 0) (set (drop 1 vs)). x \<le> r"
    by blast
  have "insert (vs ! 0) (set (drop 1 vs)) = set vs"
    using assms by (cases vs) simp_all
  with r(2,3) have "r \<in> set vs" "\<forall>x \<in> set vs. x \<le> r" by (simp_all only:)
  then have "Max (set vs) = r"
    by (intro Max_eqI) simp_all
  with r(1) assms show ?thesis by (simp add: findMax_def)
qed

lemma card_le_span:
  fixes vs :: "int list"
  assumes "vs \<noteq> []"
  shows "card (set vs) \<le> nat (Max (set vs) - Min (set vs) + 1)"
proof -
  have "set vs \<subseteq> {Min (set vs)..Max (set vs)}"
    by auto
  then have "card (set vs) \<le> card {Min (set vs)..Max (set vs)}"
    by (intro card_mono) simp_all
  then show ?thesis by simp
qed

lemma arith_in_range: "in_range t r \<Longrightarrow> 0 \<le> r \<Longrightarrow> arith t r = Inr r"
  by (cases t) simp_all

lemma in_range_mono: "in_range t r \<Longrightarrow> 0 \<le> d \<Longrightarrow> d \<le> r \<Longrightarrow> in_range t d"
  by (cases t) auto

lemma span_eq:
  assumes "value_array e \<noteq> []"
    and "in_range (promoted (Integral e)) (Max (set (value_array e)) - Min (set (value_array e)) + 1)"
    and "Max (set (value_array e)) - Min (set (value_array e)) + 1 < 2 ^ size_t_bits"
  shows "span e = Inr (nat (Max (set (value_array e)) - Min (set (value_array e)) + 1))"
proof -
  let ?mx = "Max (set (value_array e))" and ?mn = "Min (set (value_array e))"
  have le: "?mn \<le> ?mx" using assms(1) by simp
  have "in_range (promoted (Integral e)) (?mx - ?mn)"
    using le by (intro in_range_mono [OF assms(2)]) simp_all
  then have 1: "arith (promoted (Integral e)) (?mx - ?mn) = Inr (?mx - ?mn)"
    using le by (intro arith_in_range) simp_all
  have 2: "arith (promoted (Integral e)) (?mx - ?mn + 1) = Inr (?mx - ?mn + 1)"
    using assms(2) le by (intro arith_in_range) simp_all
  have 3: "to_size_t (?mx - ?mn + 1) = nat (?mx - ?mn + 1)"
    using assms(3) le by (simp add: to_size_t_def)
  show ?thesis
    using assms(1) 1 2 3
    by (simp add: span_def max_e_def min_e_def size_e_def findMax_eq findMin_eq)
qed

lemma min_max_Alias: "min_e Alias = Inr 0" "max_e Alias = Inr 0"
  by (simp_all add: min_e_def max_e_def findMin_def findMax_def findMinLoop.simps
      findMaxLoop.simps Alias_def size_e_def)

lemma min_max_Wide: "min_e Wide = Inr 0" "max_e Wide = Inr 4294967295"
  by (simp_all add: min_e_def max_e_def findMin_def findMax_def findMinLoop.simps
      findMaxLoop.simps Wide_def size_e_def)

lemma generated_Wide: "generated Wide"
  by (simp add: generated_def Wide_def size_e_def ENUM_NOT_FOUND_def size_t_bits_def)

lemma span_Alias: "span Alias = Inr 1"
  by (simp add: span_def min_max_Alias) (simp add: Alias_def int_bits_def to_size_t_def size_t_bits_def)

lemma span_Wide: "span Wide = Inr 0"
  by (simp add: span_def min_max_Wide) (simp add: Wide_def int_bits_def to_size_t_def size_t_bits_def)

text \<open>
  C5, as the specification states it: \<open>span >= size\<close> for every generated enum type,
  also with duplicate values. The declarations \<open>{X, Y = X}\<close> refute it: both constants
  have the value 0, so the span is 1 and the size is 2.
\<close>

theorem C5_span_below_size:
  "generated Alias \<and> span Alias = Inr 1 \<and> size_e Alias = 2"
  using generated_Alias span_Alias by (simp add: Alias_def size_e_def)

text \<open>
  The unsigned subtraction wraps around as well: an enum over \<open>uint32_t\<close> with the
  values 0 and \<open>0xFFFFFFFF\<close> has the span 0.
\<close>

lemma span_below_size_Wide:
  "generated Wide \<and> span Wide = Inr 0 \<and> size_e Wide = 2"
  using generated_Wide span_Wide by (simp add: Wide_def size_e_def)

text \<open>
  C5, amended: for every generated enum type whose \<open>max - min + 1\<close> is a value of the
  type the expression is computed in (the promoted underlying type) and of \<open>size_t\<close>,
  \<open>span\<close> equals \<open>max - min + 1\<close> and is at least the number of distinct declared
  values; so \<open>span >= size\<close> when the declared values are pairwise distinct.
\<close>

theorem C5_span:
  assumes "generated e"
  shows "\<exists>mn mx. min_e e = Inr mn \<and> max_e e = Inr mx \<and> mn \<le> mx \<and>
    (in_range (promoted (Integral e)) (mx - mn + 1) \<and> mx - mn + 1 < 2 ^ size_t_bits \<longrightarrow>
       span e = Inr (nat (mx - mn + 1)) \<and>
       card (set (value_array e)) \<le> nat (mx - mn + 1) \<and>
       (distinct (value_array e) \<longrightarrow> size_e e \<le> nat (mx - mn + 1)))"
proof -
  let ?mn = "Min (set (value_array e))" and ?mx = "Max (set (value_array e))"
  have ne: "value_array e \<noteq> []"
    using assms by (auto simp: generated_def size_e_def)
  have mn: "min_e e = Inr ?mn"
    using ne by (simp add: min_e_def size_e_def findMin_eq)
  have mx: "max_e e = Inr ?mx"
    using ne by (simp add: max_e_def size_e_def findMax_eq)
  have le: "?mn \<le> ?mx"
    using ne by simp
  have c: "card (set (value_array e)) \<le> nat (?mx - ?mn + 1)"
    using ne by (rule card_le_span)
  have s: "span e = Inr (nat (?mx - ?mn + 1))"
    if "in_range (promoted (Integral e)) (?mx - ?mn + 1)" "?mx - ?mn + 1 < 2 ^ size_t_bits"
    using ne that by (rule span_eq)
  have d: "size_e e \<le> nat (?mx - ?mn + 1)" if "distinct (value_array e)"
    using c distinct_card [OF that] by (simp add: size_e_def)
  from mn mx le c s d show ?thesis by blast
qed

theorem C5_span_witness:
  "generated Letters \<and> min_e Letters = Inr 5 \<and> max_e Letters = Inr 11 \<and>
   in_range (promoted (Integral Letters)) (11 - 5 + 1) \<and>
   span Letters = Inr 7 \<and> card (set (value_array Letters)) \<le> 7 \<and> size_e Letters \<le> 7"
proof -
  have g: "generated Letters" by (rule generated_Letters)
  have mn: "min_e Letters = Inr 5"
    by (simp add: min_e_def findMin_def findMinLoop.simps Letters_def size_e_def)
  have mx: "max_e Letters = Inr 11"
    by (simp add: max_e_def findMax_def findMaxLoop.simps Letters_def size_e_def)
  have r: "in_range (promoted (Integral Letters)) (11 - 5 + 1)"
    by (simp add: Letters_def int_bits_def)
  have s: "(11::int) - 5 + 1 < 2 ^ size_t_bits"
    by (simp add: size_t_bits_def)
  have d: "distinct (value_array Letters)"
    by (simp add: Letters_def)
  from C5_span [OF g] mn mx r s d g show ?thesis
    by auto
qed

section \<open>The name processor: trimming into the storage\<close>

lemma not_ender_iff: "(c \<noteq> NUL \<and> c \<notin> set ENUM_NAME_ENDERS) = (\<not> endsName c 0)"
  by (auto simp: endsName_0 ENUM_NAME_ENDERS_def)

lemma strpbrk_trimmed:
  "strpbrk raw ENUM_NAME_ENDERS =
     (if c_at raw (length (trimmed raw)) = NUL then None else Some (length (trimmed raw)))"
  by (simp add: strpbrk_def not_ender_iff trimmed_def)

lemma c_at_Cons_Suc: "c_at (c # cs) (Suc n) = c_at cs n"
  by (simp add: c_at_def)

lemma strlen_trimmed:
  "c_at raw (length (trimmed raw)) = NUL \<Longrightarrow> strlen raw = length (trimmed raw)"
proof (induction raw)
  case Nil
  then show ?case by (simp add: strlen_def trimmed_def)
next
  case (Cons c cs)
  show ?case
  proof (cases "endsName c 0")
    case True
    with Cons.prems show ?thesis
      by (simp add: strlen_def trimmed_def c_at_def)
  next
    case False
    then have "c \<noteq> NUL" using endsName_NUL by auto
    moreover have "trimmed (c # cs) = c # trimmed cs"
      using False by (simp add: trimmed_def)
    moreover from this Cons.prems have "c_at cs (length (trimmed cs)) = NUL"
      by (simp add: c_at_Cons_Suc)
    ultimately show ?thesis
      using Cons.IH by (simp add: strlen_def)
  qed
qed

lemma symbolCount_eq:
  "(case strpbrk raw ENUM_NAME_ENDERS of None \<Rightarrow> strlen raw | Some k \<Rightarrow> k) = length (trimmed raw)"
  by (simp add: strpbrk_trimmed strlen_trimmed)

lemma trimmed_le_strlen: "length (trimmed raw) \<le> strlen raw"
proof (induction raw)
  case Nil
  then show ?case by (simp add: strlen_def trimmed_def)
next
  case (Cons c cs)
  show ?case
  proof (cases "endsName c 0")
    case True
    then show ?thesis by (simp add: trimmed_def)
  next
    case False
    then have "c \<noteq> NUL" using endsName_NUL by auto
    with False Cons.IH show ?thesis
      by (simp add: strlen_def trimmed_def)
  qed
qed

lemma trimmed_nth: "i < length (trimmed raw) \<Longrightarrow> raw ! i = trimmed raw ! i"
  by (simp add: trimmed_def takeWhile_nth)

lemma copied_bytes:
  "map (\<lambda>i. Some (if i < strlen raw then raw ! i else NUL)) [0..<length (trimmed raw)] =
   map Some (trimmed raw)"
proof (rule nth_equalityI)
  show "length (map (\<lambda>i. Some (if i < strlen raw then raw ! i else NUL)) [0..<length (trimmed raw)]) =
      length (map Some (trimmed raw))"
    by simp
next
  fix i assume "i < length (map (\<lambda>i. Some (if i < strlen raw then raw ! i else NUL)) [0..<length (trimmed raw)])"
  then have i: "i < length (trimmed raw)" by simp
  with trimmed_le_strlen [of raw] have "i < strlen raw" by simp
  with i show "map (\<lambda>i. Some (if i < strlen raw then raw ! i else NUL)) [0..<length (trimmed raw)] ! i =
      map Some (trimmed raw) ! i"
    by (simp add: trimmed_nth)
qed

lemma strncpy_trimmed:
  assumes "length (trimmed raw) \<le> length free"
  shows "strncpy (pre @ free) (length pre) raw (length (trimmed raw)) =
    Inr (pre @ map Some (trimmed raw) @ drop (length (trimmed raw)) free)"
  using assms by (simp add: strncpy_def copied_bytes)

lemma terminate_name:
  assumes "n < length free" "length ts = n"
  shows "(pre @ ts @ drop n free)[length pre + n := Some NUL] =
    (pre @ ts @ [Some NUL]) @ drop (n + 1) free"
proof -
  have "drop n free = free ! n # drop (Suc n) free"
    using assms(1) by (rule Cons_nth_drop_Suc [symmetric])
  then show ?thesis
    using assms(2) by (simp add: list_update_append)
qed


lemma layout_Nil: "layout [] = []"
  by (simp add: layout_def)

lemma layout_Cons: "layout (raw # raws) = trimmed raw @ NUL # layout raws"
  by (simp add: layout_def)

lemma processNames_loop_step:
  assumes "index < length raws" "length ps = length raws"
    and "length (trimmed (raws ! index)) < length free"
  shows "processNames_loop raws (length raws) index
      \<lparr>processedNames = ps, nameStorage = pre @ free\<rparr> (length pre) =
    processNames_loop raws (length raws) (index + 1)
      \<lparr>processedNames = ps[index := Some (length pre)],
       nameStorage = (pre @ map Some (trimmed (raws ! index)) @ [Some NUL]) @
         drop (length (trimmed (raws ! index)) + 1) free\<rparr>
      (length (pre @ map Some (trimmed (raws ! index)) @ [Some NUL]))"
proof -
  let ?m = "length (trimmed (raws ! index))"
  have cp: "strncpy (pre @ free) (length pre) (raws ! index) ?m =
      Inr (pre @ map Some (trimmed (raws ! index)) @ drop ?m free)"
    using assms(3) by (intro strncpy_trimmed) simp
  have tm: "(pre @ map Some (trimmed (raws ! index)) @ drop ?m free)[length pre + ?m := Some NUL] =
      (pre @ map Some (trimmed (raws ! index)) @ [Some NUL]) @ drop (?m + 1) free"
    using assms(3) by (intro terminate_name) simp_all
  have lt: "length pre + ?m < length (pre @ map Some (trimmed (raws ! index)) @ drop ?m free)"
    using assms(3) by simp
  show ?thesis
    apply (subst processNames_loop.simps)
    apply (simp only: Let_def symbolCount_eq name_table.simps cp sum.case tm)
    using assms(1,2) lt apply simp
    done
qed

lemma processNames_loop_spec:
  "length raws - index = n \<Longrightarrow> index \<le> length raws \<Longrightarrow> length ps = length raws \<Longrightarrow>
   length (layout (drop index raws)) \<le> length free \<Longrightarrow>
   processNames_loop raws (length raws) index
     \<lparr>processedNames = ps, nameStorage = pre @ free\<rparr> (length pre) =
   Inr \<lparr>processedNames = take index ps @ map Some (offsets_from (length pre) (drop index raws)),
        nameStorage = pre @ map Some (layout (drop index raws)) @
          drop (length (layout (drop index raws))) free\<rparr>"
proof (induction n arbitrary: index ps pre free)
  case 0
  then have "index = length raws" by simp
  with 0 show ?case
    by (subst processNames_loop.simps) (simp add: layout_Nil)
next
  case (Suc n)
  then have lt: "index < length raws" by simp
  let ?t = "trimmed (raws ! index)"
  let ?rest = "drop (Suc index) raws"
  have dr: "drop index raws = raws ! index # ?rest"
    using lt by (rule Cons_nth_drop_Suc [symmetric])
  have len: "length ?t + 1 + length (layout ?rest) \<le> length free"
    using Suc.prems(4) by (simp add: dr layout_Cons)
  then have m: "length ?t < length free" by simp
  have "processNames_loop raws (length raws) (index + 1)
      \<lparr>processedNames = ps[index := Some (length pre)],
       nameStorage = (pre @ map Some ?t @ [Some NUL]) @ drop (length ?t + 1) free\<rparr>
      (length (pre @ map Some ?t @ [Some NUL])) =
    Inr \<lparr>processedNames = take (index + 1) (ps[index := Some (length pre)]) @
          map Some (offsets_from (length (pre @ map Some ?t @ [Some NUL])) (drop (index + 1) raws)),
        nameStorage = (pre @ map Some ?t @ [Some NUL]) @ map Some (layout (drop (index + 1) raws)) @
          drop (length (layout (drop (index + 1) raws))) (drop (length ?t + 1) free)\<rparr>"
    using Suc.prems lt len by (intro Suc.IH) simp_all
  moreover have "take (index + 1) (ps[index := Some (length pre)]) = take index ps @ [Some (length pre)]"
    using lt Suc.prems(3) by (simp add: take_Suc_conv_app_nth)
  ultimately show ?case
    using processNames_loop_step [OF lt Suc.prems(3) m, of pre]
    by (simp add: dr layout_Cons add.commute add.left_commute)
qed


lemma bytesNeeded_loop_spec:
  "length raws - index = n \<Longrightarrow> index \<le> length raws \<Longrightarrow>
   bytesNeeded_loop raws (length raws) index b =
     Inr (b + sum_list (map (\<lambda>raw. strlen raw + 1) (drop index raws)))"
proof (induction n arbitrary: index b)
  case 0
  then show ?case
    by (subst bytesNeeded_loop.simps) simp
next
  case (Suc n)
  then have lt: "index < length raws" by simp
  have dr: "drop index raws = raws ! index # drop (Suc index) raws"
    using lt by (rule Cons_nth_drop_Suc [symmetric])
  have "bytesNeeded_loop raws (length raws) (index + 1) (b + (strlen (raws ! index) + 1)) =
      Inr (b + (strlen (raws ! index) + 1) +
        sum_list (map (\<lambda>raw. strlen raw + 1) (drop (index + 1) raws)))"
    using Suc.prems lt by (intro Suc.IH) simp_all
  then show ?case
    using lt by (subst bytesNeeded_loop.simps) (simp add: dr)
qed

lemma length_layout: "length (layout raws) = sum_list (map (\<lambda>raw. length (trimmed raw) + 1) raws)"
  by (induction raws) (simp_all add: layout_Nil layout_Cons)

lemma layout_le_bytesNeeded:
  "length (layout raws) \<le> sum_list (map (\<lambda>raw. strlen raw + 1) raws)"
  unfolding length_layout
  by (rule sum_list_mono) (simp add: trimmed_le_strlen)

lemma processNames_eq:
  "processNames raws (length raws) =
     Inr \<lparr>processedNames = map Some (offsets_from 0 raws),
          nameStorage = map Some (layout raws) @
            replicate (sum_list (map (\<lambda>raw. strlen raw + 1) raws) - length (layout raws)) None\<rparr>"
proof -
  let ?b = "sum_list (map (\<lambda>raw. strlen raw + 1) raws)"
  have b: "bytesNeeded_loop raws (length raws) 0 0 = Inr ?b"
    using bytesNeeded_loop_spec [of raws 0 "length raws" 0] by simp
  have "processNames_loop raws (length raws) 0
      \<lparr>processedNames = replicate (length raws) None, nameStorage = [] @ replicate ?b None\<rparr>
      (length ([] :: char option list)) =
    Inr \<lparr>processedNames = take 0 (replicate (length raws) None) @
          map Some (offsets_from (length ([] :: char option list)) (drop 0 raws)),
        nameStorage = [] @ map Some (layout (drop 0 raws)) @
          drop (length (layout (drop 0 raws))) (replicate ?b None)\<rparr>"
    using layout_le_bytesNeeded [of raws]
    by (intro processNames_loop_spec [where n = "length raws"]) simp_all
  with b show ?thesis
    by (simp add: processNames_def)
qed

lemma offsets_from_nth:
  "i < length raws \<Longrightarrow> offsets_from wp raws ! i = wp + length (layout (take i raws))"
proof (induction raws arbitrary: wp i)
  case Nil
  then show ?case by simp
next
  case (Cons raw raws)
  then show ?case
    by (cases i) (simp_all add: layout_Nil layout_Cons)
qed

lemma length_offsets_from: "length (offsets_from wp raws) = length raws"
  by (induction raws arbitrary: wp) simp_all

lemma layout_append: "layout (xs @ ys) = layout xs @ layout ys"
  by (simp add: layout_def)

lemma NUL_notin_trimmed: "NUL \<notin> set (trimmed raw)"
proof
  assume "NUL \<in> set (trimmed raw)"
  then have "\<not> endsName NUL 0"
    unfolding trimmed_def by (rule set_takeWhileD [THEN conjunct2])
  with endsName_NUL show False by simp
qed

lemma c_str_name: "NUL \<notin> set t \<Longrightarrow> c_str (map Some t @ Some NUL # rest) = Some t"
  by (induction t) auto

lemma c_str_layout:
  assumes "i < length raws"
  shows "c_str (drop (length (layout (take i raws))) (map Some (layout raws) @ rest)) =
    Some (trimmed (raws ! i))"
proof -
  have "raws = take i raws @ raws ! i # drop (Suc i) raws"
    using assms by (simp add: id_take_nth_drop [symmetric])
  then have "layout raws =
      layout (take i raws) @ trimmed (raws ! i) @ NUL # layout (drop (Suc i) raws)"
    by (metis layout_append layout_Cons)
  then have "drop (length (layout (take i raws))) (map Some (layout raws) @ rest) =
      map Some (trimmed (raws ! i)) @ Some NUL # (map Some (layout (drop (Suc i) raws)) @ rest)"
    by simp
  then show ?thesis
    by (simp only: c_str_name [OF NUL_notin_trimmed])
qed

lemma processNames_names:
  assumes "processNames raws (length raws) = Inr tbl" "i < length raws"
  shows "\<exists>p. processedNames tbl ! i = Some p \<and> c_str (drop p (nameStorage tbl)) = Some (trimmed (raws ! i))"
proof -
  from assms(1) have tbl: "tbl = \<lparr>processedNames = map Some (offsets_from 0 raws),
          nameStorage = map Some (layout raws) @
            replicate (sum_list (map (\<lambda>raw. strlen raw + 1) raws) - length (layout raws)) None\<rparr>"
    by (simp add: processNames_eq)
  have "processedNames tbl ! i = Some (length (layout (take i raws)))"
    using assms(2) by (simp add: tbl length_offsets_from offsets_from_nth)
  moreover have "c_str (drop (length (layout (take i raws))) (nameStorage tbl)) =
      Some (trimmed (raws ! i))"
    unfolding tbl name_table.simps using assms(2) by (rule c_str_layout)
  ultimately show ?thesis by blast
qed

lemma processNames_sizes:
  assumes "processNames raws (length raws) = Inr tbl"
  shows "length (processedNames tbl) = length raws"
    "length (nameStorage tbl) = sum_list (map (\<lambda>raw. strlen raw + 1) raws)"
proof -
  from assms have tbl: "tbl = \<lparr>processedNames = map Some (offsets_from 0 raws),
          nameStorage = map Some (layout raws) @
            replicate (sum_list (map (\<lambda>raw. strlen raw + 1) raws) - length (layout raws)) None\<rparr>"
    by (simp add: processNames_eq)
  show "length (processedNames tbl) = length raws"
    by (simp add: tbl length_offsets_from)
  show "length (nameStorage tbl) = sum_list (map (\<lambda>raw. strlen raw + 1) raws)"
    using layout_le_bytesNeeded [of raws] by (simp add: tbl)
qed

section \<open>Names of instances\<close>

lemma Enum_processNames_reachable:
  assumes "length (name_array e) = size_e e" "reachable e st"
  shows "\<exists>tbl. Enum_processNames e st = Inr tbl \<and>
    processNames (name_array e) (length (name_array e)) = Inr tbl"
proof (cases st)
  case None
  then show ?thesis
    using processNames_eq [of "name_array e"]
    by (simp add: Enum_processNames_def assms(1))
next
  case (Some tbl)
  with assms show ?thesis
    by (simp add: Enum_processNames_def reachable_def)
qed

lemma to_string_loop_eq:
  "size_e e - index = n \<Longrightarrow> index \<le> size_e e \<Longrightarrow>
   to_string_loop e tbl x index =
     (case first_index (\<lambda>k. value_array e ! k = to_int x) index (size_e e) of
        None \<Rightarrow> Inl (domain_error ''Enum::_to_string: invalid enum value'')
      | Some i \<Rightarrow>
          (if i < length (processedNames tbl) then
             (case processedNames tbl ! i of
                None \<Rightarrow> Inl undefined_behaviour | Some p \<Rightarrow> Inr p)
           else Inl undefined_behaviour))"
proof (induction n arbitrary: index)
  case 0
  then show ?case
    by (subst to_string_loop.simps) (simp add: first_index_stop)
next
  case (Suc n)
  then have lt: "index < size_e e" by simp
  show ?case
  proof (cases "value_array e ! index = to_int x")
    case True
    with lt show ?thesis
      by (subst to_string_loop.simps) (simp add: first_index_step)
  next
    case False
    have "to_string_loop e tbl x index = to_string_loop e tbl x (index + 1)"
      using lt False by (subst to_string_loop.simps) simp
    also have "\<dots> = (case first_index (\<lambda>k. value_array e ! k = to_int x) (index + 1) (size_e e) of
        None \<Rightarrow> Inl (domain_error ''Enum::_to_string: invalid enum value'')
      | Some i \<Rightarrow>
          (if i < length (processedNames tbl) then
             (case processedNames tbl ! i of
                None \<Rightarrow> Inl undefined_behaviour | Some p \<Rightarrow> Inr p)
           else Inl undefined_behaviour))"
      using Suc.prems lt by (intro Suc.IH) simp_all
    finally show ?thesis
      using lt False by (simp add: first_index_step)
  qed
qed

lemma to_string_found:
  assumes "length (name_array e) = size_e e" "reachable e st"
    and "first_index (\<lambda>k. value_array e ! k = to_int x) 0 (size_e e) = Some i"
  shows "\<exists>p tbl. to_string e st x = (Inr p, Some tbl) \<and> reachable e (Some tbl) \<and>
    string_at (Some tbl) p = Some (trimmed (name_array e ! i))"
proof -
  from Enum_processNames_reachable [OF assms(1,2)] obtain tbl
    where tbl: "Enum_processNames e st = Inr tbl"
      "processNames (name_array e) (length (name_array e)) = Inr tbl"
    by blast
  have i: "i < length (name_array e)"
    using first_index_lt [OF assms(3)] assms(1) by simp
  from processNames_names [OF tbl(2) i] obtain p
    where p: "processedNames tbl ! i = Some p"
      "c_str (drop p (nameStorage tbl)) = Some (trimmed (name_array e ! i))"
    by blast
  have "to_string_loop e tbl x 0 = Inr p"
    using assms(3) i p(1) processNames_sizes(1) [OF tbl(2)]
    by (simp add: to_string_loop_eq [where n = "size_e e"])
  then have "to_string e st x = (Inr p, Some tbl)"
    by (simp add: to_string_def tbl(1))
  moreover have "reachable e (Some tbl)"
    using tbl(2) assms(1) by (simp add: reachable_def)
  moreover have "string_at (Some tbl) p = Some (trimmed (name_array e ! i))"
    using p(2) by (simp add: string_at_def)
  ultimately show ?thesis by blast
qed

lemma to_string_missing:
  assumes "length (name_array e) = size_e e" "reachable e st"
    and "first_index (\<lambda>k. value_array e ! k = to_int x) 0 (size_e e) = None"
  shows "fst (to_string e st x) = Inl (domain_error ''Enum::_to_string: invalid enum value'')"
proof -
  from Enum_processNames_reachable [OF assms(1,2)] obtain tbl
    where tbl: "Enum_processNames e st = Inr tbl"
    by blast
  have "to_string_loop e tbl x 0 = Inl (domain_error ''Enum::_to_string: invalid enum value'')"
    using assms(3) by (simp add: to_string_loop_eq [where n = "size_e e"])
  then show ?thesis
    by (simp add: to_string_def tbl)
qed

lemma trimmed_Letters:
  "map trimmed (name_array Letters) = [''A'', ''B'', ''C'']"
  by (simp add: Letters_def trimmed_def endsName_0 NUL_def)

lemma strlen_Letters:
  "map strlen (name_array Letters) = [6, 1, 5]"
  by (simp add: Letters_def strlen_def NUL_def)

lemma size_Letters: "size_e Letters = 3" "length (name_array Letters) = 3"
  by (simp_all add: Letters_def size_e_def)

text \<open>
  C7, as the specification states it: the character buffer has the size of the sum of
  (trimmed length + 1) over the raw names. For \<open>{A = 10, B, C = 5}\<close> that sum is 6, and
  the buffer has 15 bytes.
\<close>

theorem C7_buffer_is_larger:
  "(\<exists>tbl. Enum_processNames Letters None = Inr tbl \<and> length (nameStorage tbl) = 15) \<and>
   sum_list (map (\<lambda>raw. length (trimmed raw) + 1) (name_array Letters)) = 6"
proof -
  have "reachable Letters None" by (simp add: reachable_def)
  from Enum_processNames_reachable [OF _ this] obtain tbl
    where tbl: "Enum_processNames Letters None = Inr tbl"
      "processNames (name_array Letters) (length (name_array Letters)) = Inr tbl"
    by (auto simp: size_Letters)
  have "sum_list (map (\<lambda>raw. strlen raw + 1) (name_array Letters)) =
      sum_list (map (\<lambda>n. n + 1) (map strlen (name_array Letters)))"
    by (simp add: comp_def)
  also have "\<dots> = 15" by (simp add: strlen_Letters)
  finally have "length (nameStorage tbl) = 15"
    using processNames_sizes(2) [OF tbl(2)] by simp
  moreover have "sum_list (map (\<lambda>raw. length (trimmed raw) + 1) (name_array Letters)) =
      sum_list (map (\<lambda>t. length t + 1) (map trimmed (name_array Letters)))"
    by (simp add: comp_def)
  then have "sum_list (map (\<lambda>raw. length (trimmed raw) + 1) (name_array Letters)) = 6"
    by (simp add: trimmed_Letters)
  ultimately show ?thesis using tbl(1) by blast
qed

text \<open>
  C7, amended: on its first invocation the name processor allocates a character buffer
  whose size is the sum over the raw names of (length of the whole stringized declaration
  + 1), an upper bound of the sum of (trimmed length + 1), and an array of \<open>_size\<close>
  pointers.
\<close>

theorem C7_buffer_size:
  assumes "generated e"
  shows "\<exists>tbl. Enum_processNames e None = Inr tbl \<and>
    length (nameStorage tbl) = sum_list (map (\<lambda>raw. strlen raw + 1) (name_array e)) \<and>
    sum_list (map (\<lambda>raw. length (trimmed raw) + 1) (name_array e)) \<le> length (nameStorage tbl) \<and>
    length (processedNames tbl) = size_e e"
proof -
  have len: "length (name_array e) = size_e e"
    using assms by (simp add: generated_def)
  have "reachable e None" by (simp add: reachable_def)
  from Enum_processNames_reachable [OF len this] obtain tbl
    where tbl: "Enum_processNames e None = Inr tbl"
      "processNames (name_array e) (length (name_array e)) = Inr tbl"
    by blast
  from processNames_sizes [OF tbl(2)] layout_le_bytesNeeded [of "name_array e"] tbl(1) len
  show ?thesis
    by (simp add: length_layout)
qed

theorem C7_buffer_size_witness:
  "generated Letters \<and>
   (\<exists>tbl. Enum_processNames Letters None = Inr tbl \<and> length (nameStorage tbl) = 15 \<and>
      length (processedNames tbl) = 3)"
proof -
  have g: "generated Letters" by (rule generated_Letters)
  have "sum_list (map (\<lambda>raw. strlen raw + 1) (name_array Letters)) =
      sum_list (map (\<lambda>n. n + 1) (map strlen (name_array Letters)))"
    by (simp add: comp_def)
  also have "\<dots> = 15" by (simp add: strlen_Letters)
  finally show ?thesis
    using g C7_buffer_size [OF g] by (auto simp: size_Letters)
qed

lemma first_index_value_None:
  "first_index (\<lambda>k. value_array e ! k = v) 0 (size_e e) = None \<longleftrightarrow> v \<notin> set (value_array e)"
  using first_index_mem [of "value_array e" v] by (simp add: size_e_def)

text \<open>
  C3, as the specification states it: \<open>to_string\<close> of an instance returns the declared
  identifier of its constant. The declarations \<open>{X, Y = X}\<close> refute it: the constant
  \<open>Y\<close>, at index 1, has the value 0 and the identifier \<open>Y\<close>, and \<open>to_string\<close> of its
  instance returns \<open>X\<close>.
\<close>

theorem C3_alias_prints_first_name:
  "generated Alias \<and> reachable Alias None \<and>
   (\<exists>p st'. to_string Alias None (Enum (value_array Alias ! 1)) = (Inr p, st') \<and>
      string_at st' p = Some ''X'') \<and>
   trimmed (name_array Alias ! 1) = ''Y''"
proof -
  have g: "generated Alias" by (rule generated_Alias)
  have len: "length (name_array Alias) = size_e Alias"
    by (simp add: Alias_def size_e_def)
  have r: "reachable Alias None" by (simp add: reachable_def)
  have "first_index (\<lambda>k. value_array Alias ! k = to_int (Enum (value_array Alias ! 1))) 0
      (size_e Alias) = Some 0"
    by (simp add: first_index_Some_iff Alias_def size_e_def)
  from to_string_found [OF len r this] obtain p tbl
    where "to_string Alias None (Enum (value_array Alias ! 1)) = (Inr p, Some tbl)"
      "string_at (Some tbl) p = Some (trimmed (name_array Alias ! 0))"
    by blast
  moreover have "trimmed (name_array Alias ! 0) = ''X''"
    by (simp add: Alias_def trimmed_def endsName_0 NUL_def)
  moreover have "trimmed (name_array Alias ! 1) = ''Y''"
    by (simp add: Alias_def trimmed_def endsName_0 NUL_def)
  ultimately show ?thesis
    using g r by auto
qed

text \<open>
  C3, amended: for an instance whose value occurs in the value table, \<open>to_string\<close> returns
  a pointer to exactly the declared identifier of the first declared constant that has the
  value: the stringized declaration of that constant, truncated at its first ender
  character. For a constant whose value no earlier constant has, this is the constant's own
  identifier.
\<close>

theorem C3_to_string_name:
  assumes "generated e" and "reachable e st" and "to_int x \<in> set (value_array e)"
  shows "\<exists>i p st'. i < size_e e \<and> value_array e ! i = to_int x \<and>
    (\<forall>k<i. value_array e ! k \<noteq> to_int x) \<and>
    to_string e st x = (Inr p, st') \<and> reachable e st' \<and>
    string_at st' p = Some (trimmed (name_array e ! i)) \<and>
    (\<forall>j<size_e e. value_array e ! j = to_int x \<and> (\<forall>k<j. value_array e ! k \<noteq> to_int x) \<longrightarrow>
       string_at st' p = Some (trimmed (name_array e ! j)))"
proof -
  have len: "length (name_array e) = size_e e"
    using assms(1) by (simp add: generated_def)
  from assms(3) obtain i
    where i: "first_index (\<lambda>k. value_array e ! k = to_int x) 0 (size_e e) = Some i"
    using first_index_value_None [of e "to_int x"] by auto
  then have least: "i < size_e e" "value_array e ! i = to_int x"
    "\<forall>k<i. value_array e ! k \<noteq> to_int x"
    by (simp_all add: first_index_Some_iff)
  from to_string_found [OF len assms(2) i] obtain p tbl
    where s: "to_string e st x = (Inr p, Some tbl)" "reachable e (Some tbl)"
      "string_at (Some tbl) p = Some (trimmed (name_array e ! i))"
    by blast
  have own: "string_at (Some tbl) p = Some (trimmed (name_array e ! j))"
    if "value_array e ! j = to_int x" "\<forall>k<j. value_array e ! k \<noteq> to_int x" for j
  proof -
    from that least have "\<not> i < j" "\<not> j < i" by auto
    then have "j = i" by simp
    with s(3) show ?thesis by simp
  qed
  from least s own show ?thesis by blast
qed

theorem C3_to_string_name_witness:
  "generated Letters \<and> reachable Letters None \<and> 5 \<in> set (value_array Letters) \<and>
   name_array Letters ! 2 = ''C = 5'' \<and>
   (\<exists>p st'. to_string Letters None (Enum 5) = (Inr p, st') \<and> string_at st' p = Some ''C'')"
proof -
  have g: "generated Letters" by (rule generated_Letters)
  have r: "reachable Letters None" by (simp add: reachable_def)
  have v: "to_int (Enum 5) \<in> set (value_array Letters)" by (simp add: Letters_def)
  from C3_to_string_name [OF g r v] obtain i p st'
    where i: "i < size_e Letters" "value_array Letters ! i = 5"
      and s: "to_string Letters None (Enum 5) = (Inr p, st')"
        "string_at st' p = Some (trimmed (name_array Letters ! i))"
    by auto
  from i have "i = 2"
    by (auto simp: Letters_def size_e_def less_Suc_eq numeral_3_eq_3)
  moreover have "map trimmed (name_array Letters) ! 2 = ''C''"
    by (simp add: trimmed_Letters)
  then have "trimmed (name_array Letters ! 2) = ''C''"
    by (simp add: size_Letters)
  moreover have "name_array Letters ! 2 = ''C = 5''"
    by (simp add: Letters_def)
  ultimately show ?thesis
    using g r v s by auto
qed

lemma value_at_in_table: "value_at e i = Inr y \<Longrightarrow> to_int y \<in> set (value_array e)"
  by (auto simp: value_at_def split: if_splits)

lemma validated_in_table:
  "from_int e v = Inr y \<Longrightarrow> to_int y \<in> set (value_array e)"
  "from_string e name = Inr y \<Longrightarrow> to_int y \<in> set (value_array e)"
  "from_string_nocase e name = Inr y \<Longrightarrow> to_int y \<in> set (value_array e)"
  by (auto simp: from_int_def from_string_def from_string_nocase_def
      split: sum.splits dest: value_at_in_table)

text \<open>
  C9: \<open>to_string\<close> throws the \<open>domain_error\<close> if and only if the value of the
  instance does not occur in the value table; for a value in the table it returns a
  pointer to a name. The validated conversions return instances whose value is in the
  table; \<open>from_int_unchecked\<close> wraps any value.
\<close>

theorem C9_to_string_domain_error:
  assumes "generated e" and "reachable e st"
  shows "(fst (to_string e st x) = Inl (domain_error ''Enum::_to_string: invalid enum value'')
      \<longleftrightarrow> to_int x \<notin> set (value_array e)) \<and>
    (to_int x \<in> set (value_array e) \<longrightarrow>
      (\<exists>p name. fst (to_string e st x) = Inr p \<and>
         string_at (snd (to_string e st x)) p = Some name)) \<and>
    (\<forall>y. from_int e v = Inr y \<or> from_string e s = Inr y \<or> from_string_nocase e s = Inr y \<longrightarrow>
       to_int y \<in> set (value_array e)) \<and>
    to_int (from_int_unchecked v) = v"
proof -
  have len: "length (name_array e) = size_e e"
    using assms(1) by (simp add: generated_def)
  have a: "fst (to_string e st x) = Inl (domain_error ''Enum::_to_string: invalid enum value'')"
    if "to_int x \<notin> set (value_array e)"
    using that to_string_missing [OF len assms(2), of x] by (simp add: first_index_value_None)
  have b: "\<exists>p name. fst (to_string e st x) = Inr p \<and>
         string_at (snd (to_string e st x)) p = Some name"
    if "to_int x \<in> set (value_array e)"
  proof -
    from that obtain i
      where i: "first_index (\<lambda>k. value_array e ! k = to_int x) 0 (size_e e) = Some i"
      using first_index_value_None [of e "to_int x"] by auto
    from to_string_found [OF len assms(2) i] show ?thesis
      by auto
  qed
  have c: "to_int y \<in> set (value_array e)"
    if "from_int e v = Inr y \<or> from_string e s = Inr y \<or> from_string_nocase e s = Inr y" for y
    using that validated_in_table by blast
  have d: "to_int (from_int_unchecked v) = v"
    by (simp add: from_int_unchecked_def)
  from a b c d show ?thesis
    by (metis Inl_Inr_False)
qed


theorem C9_to_string_domain_error_witness:
  "generated Letters \<and> reachable Letters None \<and>
   fst (to_string Letters None (from_int_unchecked 7)) =
     Inl (domain_error ''Enum::_to_string: invalid enum value'') \<and>
   (\<exists>p name. fst (to_string Letters None (Enum 11)) = Inr p \<and>
      string_at (snd (to_string Letters None (Enum 11))) p = Some name)"
proof -
  have g: "generated Letters" by (rule generated_Letters)
  have r: "reachable Letters None" by (simp add: reachable_def)
  have 1: "to_int (from_int_unchecked 7) \<notin> set (value_array Letters)"
    by (simp add: Letters_def from_int_unchecked_def)
  have 2: "to_int (Enum 11) \<in> set (value_array Letters)"
    by (simp add: Letters_def)
  from C9_to_string_domain_error [OF g r, of "from_int_unchecked 7"] 1
    C9_to_string_domain_error [OF g r, of "Enum 11"] 2 g r
  show ?thesis by blast
qed

lemma c_string_trimmed: "c_string (trimmed raw) = trimmed raw"
  unfolding c_string_def using NUL_notin_trimmed [of raw]
  by (intro takeWhile_eq_all_conv [THEN iffD2]) auto

lemma from_string_trimmed:
  assumes "length (name_array e) = size_e e" "distinct (map trimmed (name_array e))"
    and "i < size_e e"
  shows "from_string e (trimmed (name_array e ! i)) = Inr (Enum (value_array e ! i))"
proof -
  have "trimmed (name_array e ! k) \<noteq> trimmed (name_array e ! i)" if "k < i" for k
  proof -
    from that assms(1,3) have "k < length (map trimmed (name_array e))"
      "i < length (map trimmed (name_array e))" "k \<noteq> i"
      by simp_all
    with nth_eq_iff_index_eq [OF assms(2), of k i]
    have "map trimmed (name_array e) ! k \<noteq> map trimmed (name_array e) ! i"
      by blast
    with that assms(1,3) show ?thesis by simp
  qed
  with assms(3)
  have "first_index (\<lambda>k. namesMatch (name_array e ! k) (trimmed (name_array e ! i)) 0) 0 (size_e e)
      = Some i"
    by (simp add: first_index_Some_iff namesMatch_iff c_string_trimmed)
  from from_string_found [OF assms(1) this] show ?thesis .
qed

lemma getProcessedName_name:
  assumes "length (name_array e) = size_e e" "reachable e st" "i < size_e e"
  shows "\<exists>p st'. getProcessedName e st i = (Inr p, st') \<and> reachable e st' \<and>
    string_at st' p = Some (trimmed (name_array e ! i))"
proof -
  from Enum_processNames_reachable [OF assms(1,2)] obtain tbl
    where tbl: "Enum_processNames e st = Inr tbl"
      "processNames (name_array e) (length (name_array e)) = Inr tbl"
    by blast
  have i: "i < length (name_array e)"
    using assms(1,3) by simp
  from processNames_names [OF tbl(2) i] obtain p
    where p: "processedNames tbl ! i = Some p"
      "c_str (drop p (nameStorage tbl)) = Some (trimmed (name_array e ! i))"
    by blast
  have "getProcessedName e st i = (Inr p, Some tbl)"
    using i p(1) processNames_sizes(1) [OF tbl(2)]
    by (simp add: getProcessedName_def tbl(1))
  moreover have "reachable e (Some tbl)"
    using tbl(2) assms(1) by (simp add: reachable_def)
  moreover have "string_at (Some tbl) p = Some (trimmed (name_array e ! i))"
    using p(2) by (simp add: string_at_def)
  ultimately show ?thesis by blast
qed

text \<open>
  C1: for every declared constant (an index \<open>i\<close> of the tables), the trimmed name of the
  constant, as \<open>_getProcessedName(i)\<close> and as \<open>to_string\<close> of its instance return it,
  converted by \<open>from_string\<close>, then \<open>to_int\<close>, then \<open>from_int\<close>, gives an instance
  equal to the constant. The identifiers of the constants are pairwise distinct, as the
  enumerators of the C++ enumeration \<open>_Enumerated\<close> must be.
\<close>

theorem C1_round_trip:
  assumes "generated e" and "distinct (map trimmed (name_array e))"
    and "reachable e st" and "i < size_e e"
  shows "(\<exists>p st' name y. getProcessedName e st i = (Inr p, st') \<and>
      string_at st' p = Some name \<and> name = trimmed (name_array e ! i) \<and>
      from_string e name = Inr y \<and> from_int e (to_int y) = Inr (Enum (value_array e ! i))) \<and>
    (\<exists>p st' name y. to_string e st (Enum (value_array e ! i)) = (Inr p, st') \<and>
      string_at st' p = Some name \<and>
      from_string e name = Inr y \<and> from_int e (to_int y) = Inr (Enum (value_array e ! i)))"
proof -
  have len: "length (name_array e) = size_e e"
    using assms(1) by (simp add: generated_def)
  have bound: "size_e e \<le> ENUM_NOT_FOUND"
    using assms(1) by (simp add: generated_def)
  have mem: "value_array e ! i \<in> set (value_array e)"
    using assms(4) by (simp add: size_e_def)
  have again: "from_int e (value_array e ! i) = Inr (Enum (value_array e ! i))"
    using is_valid_in(2) [OF bound mem] .
  have 1: "\<exists>p st' name y. getProcessedName e st i = (Inr p, st') \<and>
      string_at st' p = Some name \<and> name = trimmed (name_array e ! i) \<and>
      from_string e name = Inr y \<and> from_int e (to_int y) = Inr (Enum (value_array e ! i))"
    using getProcessedName_name [OF len assms(3,4)] from_string_trimmed [OF len assms(2,4)] again
    by auto
  have "to_int (Enum (value_array e ! i)) \<in> set (value_array e)"
    using mem by simp
  then obtain j
    where j: "first_index (\<lambda>k. value_array e ! k = to_int (Enum (value_array e ! i))) 0 (size_e e)
        = Some j"
    using first_index_value_None [of e "to_int (Enum (value_array e ! i))"] by auto
  then have j': "j < size_e e" "value_array e ! j = value_array e ! i"
    by (simp_all add: first_index_Some_iff)
  from to_string_found [OF len assms(3) j] from_string_trimmed [OF len assms(2) j'(1)] again j'(2)
  have 2: "\<exists>p st' name y. to_string e st (Enum (value_array e ! i)) = (Inr p, st') \<and>
      string_at st' p = Some name \<and>
      from_string e name = Inr y \<and> from_int e (to_int y) = Inr (Enum (value_array e ! i))"
    by auto
  from 1 2 show ?thesis by blast
qed

theorem C1_round_trip_witness:
  "generated Letters \<and> distinct (map trimmed (name_array Letters)) \<and>
   reachable Letters None \<and>
   (\<exists>p st' y. getProcessedName Letters None 2 = (Inr p, st') \<and> string_at st' p = Some ''C'' \<and>
      from_string Letters ''C'' = Inr y \<and> from_int Letters (to_int y) = Inr (Enum 5))"
proof -
  have g: "generated Letters" by (rule generated_Letters)
  have d: "distinct (map trimmed (name_array Letters))"
    by (simp add: trimmed_Letters)
  have r: "reachable Letters None" by (simp add: reachable_def)
  have i: "2 < size_e Letters" by (simp add: size_Letters)
  have "map trimmed (name_array Letters) ! 2 = ''C''"
    by (simp add: trimmed_Letters)
  then have t: "trimmed (name_array Letters ! 2) = ''C''"
    by (simp add: size_Letters)
  have v: "value_array Letters ! 2 = 5" by (simp add: Letters_def)
  from C1_round_trip [OF g d r i] g d r show ?thesis
    unfolding t v by blast
qed

end
